theory Spec2Isabelle
  imports Main "HOL-Library.Word"
begin

section \<open>JavaScript strings\<close>

text \<open>
  A JavaScript string is a sequence of UTF-16 code units. The regular expressions of
  \<^verbatim>\<open>MobileScratchpad.tsx\<close> carry no \<^verbatim>\<open>u\<close> flag, so they work on code units.
\<close>

type_synonym jschar = "16 word"
type_synonym jsstring = "jschar list"

text \<open>An ASCII literal of the source, as code units.\<close>

definition js :: "string \<Rightarrow> jsstring" where
  "js s = map (\<lambda>c. of_nat (of_char c)) s"

definition ch_nl :: jschar where "ch_nl = 0x0A"
definition ch_space :: jschar where "ch_space = 0x20"
definition ch_dash :: jschar where "ch_dash = 0x2D"
definition ch_lbracket :: jschar where "ch_lbracket = 0x5B"
definition ch_rbracket :: jschar where "ch_rbracket = 0x5D"
definition ch_x :: jschar where "ch_x = 0x78"

text \<open>
  ECMAScript \<^verbatim>\<open>LineTerminator\<close>: LF, CR, U+2028, U+2029. The dot does not match them, and
  with the \<^verbatim>\<open>m\<close> flag the assertions \<^verbatim>\<open>^\<close> and \<^verbatim>\<open>$\<close> match next to them.
\<close>

definition is_line_terminator :: "jschar \<Rightarrow> bool" where
  "is_line_terminator c = (c = 0x0A \<or> c = 0x0D \<or> c = 0x2028 \<or> c = 0x2029)"

text \<open>
  The class \<^verbatim>\<open>\s\<close>: ECMAScript \<^verbatim>\<open>WhiteSpace\<close> (TAB, VT, FF, U+FEFF and the Unicode
  category Zs) together with \<^verbatim>\<open>LineTerminator\<close>.
\<close>

definition is_whitespace :: "jschar \<Rightarrow> bool" where
  "is_whitespace c =
     (c = 0x09 \<or> c = 0x0B \<or> c = 0x0C \<or> c = 0x20 \<or> c = 0xA0 \<or> c = 0x1680
      \<or> (0x2000 \<le> c \<and> c \<le> 0x200A)
      \<or> c = 0x202F \<or> c = 0x205F \<or> c = 0x3000 \<or> c = 0xFEFF
      \<or> is_line_terminator c)"

text \<open>
  \<^verbatim>\<open>Canonicalize\<close> of the \<^verbatim>\<open>i\<close> flag (without \<^verbatim>\<open>u\<close>): the upper-case form of the code
  unit. Every character written in the patterns of this file is ASCII, and ECMAScript never
  canonicalizes a code unit of 128 or more to one below 128, so comparing against a pattern
  character only needs the ASCII letters folded; the other code units stay apart from ASCII
  as they are.
\<close>

definition canonicalize :: "jschar \<Rightarrow> jschar" where
  "canonicalize c = (if 0x61 \<le> c \<and> c \<le> 0x7A then c - 0x20 else c)"

section \<open>The regular expressions of the file\<close>

text \<open>
  The patterns of the source are sequences of terms: the assertions \<^verbatim>\<open>^\<close> and \<^verbatim>\<open>$\<close>, a
  single character atom, an atom under the greedy quantifiers \<^verbatim>\<open>*\<close> and \<^verbatim>\<open>+\<close>, and the
  two ends of a capture group. An atom is a pattern character, the class \<^verbatim>\<open>\s\<close> (also
  written \<^verbatim>\<open>[\s]\<close>) or the dot.
\<close>

datatype atom = PChar jschar | Space | Dot

datatype item = Bol | Eol | One atom | Star atom | Plus atom | Open nat | Close nat

record regexp =
  pattern :: "item list"
  ignoreCase :: bool
  multiline :: bool

fun atom_matches :: "bool \<Rightarrow> atom \<Rightarrow> jschar \<Rightarrow> bool" where
  "atom_matches ic (PChar a) c = (if ic then canonicalize a = canonicalize c else a = c)"
| "atom_matches ic Space c = is_whitespace c"
| "atom_matches ic Dot c = (\<not> is_line_terminator c)"

text \<open>
  The state of the capture groups: where each open group started (the input that was left
  there) and the text of each closed group.
\<close>

type_synonym captures = "(nat \<rightharpoonup> jsstring) \<times> (nat \<rightharpoonup> jsstring)"

definition no_captures :: captures where
  "no_captures = (Map.empty, Map.empty)"

definition open_group :: "nat \<Rightarrow> jsstring \<Rightarrow> captures \<Rightarrow> captures" where
  "open_group k rest cs = ((fst cs)(k \<mapsto> rest), snd cs)"

definition close_group :: "nat \<Rightarrow> jsstring \<Rightarrow> captures \<Rightarrow> captures" where
  "close_group k rest cs =
     (case fst cs k of
        None \<Rightarrow> cs
      | Some start \<Rightarrow> (fst cs, (snd cs)(k \<mapsto> take (length start - length rest) start)))"

definition at_bol :: "bool \<Rightarrow> jschar option \<Rightarrow> bool" where
  "at_bol ml prev = (case prev of None \<Rightarrow> True | Some c \<Rightarrow> ml \<and> is_line_terminator c)"

definition at_eol :: "bool \<Rightarrow> jsstring \<Rightarrow> bool" where
  "at_eol ml rest = (case rest of [] \<Rightarrow> True | c # _ \<Rightarrow> ml \<and> is_line_terminator c)"

text \<open>
  The backtracking matcher of ECMAScript at one position: \<open>prev\<close> is the code unit before
  the position (\<open>None\<close> at the start of the input) and \<open>rest\<close> the input from the position
  on. The result is the input left after the match, with the captures. A greedy quantifier
  first takes one more character and falls back to the rest of the pattern when that fails.
\<close>

fun rx_match ::
  "bool \<Rightarrow> bool \<Rightarrow> item list \<Rightarrow> jschar option \<Rightarrow> jsstring \<Rightarrow> captures
     \<Rightarrow> (jsstring \<times> captures) option" where
  "rx_match ic ml [] prev rest cs = Some (rest, cs)"
| "rx_match ic ml (Bol # r) prev rest cs =
     (if at_bol ml prev then rx_match ic ml r prev rest cs else None)"
| "rx_match ic ml (Eol # r) prev rest cs =
     (if at_eol ml rest then rx_match ic ml r prev rest cs else None)"
| "rx_match ic ml (One a # r) prev [] cs = None"
| "rx_match ic ml (One a # r) prev (c # rest) cs =
     (if atom_matches ic a c then rx_match ic ml r (Some c) rest cs else None)"
| "rx_match ic ml (Star a # r) prev [] cs = rx_match ic ml r prev [] cs"
| "rx_match ic ml (Star a # r) prev (c # rest) cs =
     (if atom_matches ic a c
      then (case rx_match ic ml (Star a # r) (Some c) rest cs of
              Some res \<Rightarrow> Some res
            | None \<Rightarrow> rx_match ic ml r prev (c # rest) cs)
      else rx_match ic ml r prev (c # rest) cs)"
| "rx_match ic ml (Plus a # r) prev [] cs = None"
| "rx_match ic ml (Plus a # r) prev (c # rest) cs =
     (if atom_matches ic a c then rx_match ic ml (Star a # r) (Some c) rest cs else None)"
| "rx_match ic ml (Open k # r) prev rest cs = rx_match ic ml r prev rest (open_group k rest cs)"
| "rx_match ic ml (Close k # r) prev rest cs = rx_match ic ml r prev rest (close_group k rest cs)"

text \<open>
  \<^verbatim>\<open>RegExpBuiltinExec\<close>: the first position, from the current one on, where the pattern
  matches. The result is the input from the start of the match, the input left after it,
  and the captures.
\<close>

fun rx_exec ::
  "regexp \<Rightarrow> jschar option \<Rightarrow> jsstring \<Rightarrow> (jsstring \<times> jsstring \<times> captures) option" where
  "rx_exec re prev [] =
     (case rx_match (ignoreCase re) (multiline re) (pattern re) prev [] no_captures of
        Some (after, cs) \<Rightarrow> Some ([], after, cs)
      | None \<Rightarrow> None)"
| "rx_exec re prev (c # rest) =
     (case rx_match (ignoreCase re) (multiline re) (pattern re) prev (c # rest) no_captures of
        Some (after, cs) \<Rightarrow> Some (c # rest, after, cs)
      | None \<Rightarrow> rx_exec re (Some c) rest)"

text \<open>\<^verbatim>\<open>regexp.test(s)\<close> for a regular expression without the \<^verbatim>\<open>g\<close> flag.\<close>

definition js_test :: "regexp \<Rightarrow> jsstring \<Rightarrow> bool" where
  "js_test re s = (rx_exec re None s \<noteq> None)"

text \<open>
  \<^verbatim>\<open>s.match(regexp)\<close> without the \<^verbatim>\<open>g\<close> flag: \<open>None\<close> is \<^verbatim>\<open>null\<close>, otherwise the text
  of each group (a group that took no part is \<^verbatim>\<open>undefined\<close>, here \<open>None\<close>).
\<close>

definition js_match :: "regexp \<Rightarrow> jsstring \<Rightarrow> (nat \<rightharpoonup> jsstring) option" where
  "js_match re s = (case rx_exec re None s of None \<Rightarrow> None | Some (_, _, cs) \<Rightarrow> Some (snd cs))"

text \<open>
  \<^verbatim>\<open>s.replace(regexp, template)\<close> without the \<^verbatim>\<open>g\<close> flag: the first match is replaced
  by the expansion of the template. The templates of the source are \<^verbatim>\<open>'$1- [x] '\<close> and
  \<^verbatim>\<open>'$1- [ ] '\<close>: a group reference followed by literal text. An unset group expands to
  the empty string.
\<close>

datatype template_part = Group nat | Text jsstring

fun expand :: "template_part list \<Rightarrow> (nat \<rightharpoonup> jsstring) \<Rightarrow> jsstring" where
  "expand [] g = []"
| "expand (Group k # ps) g = (case g k of None \<Rightarrow> [] | Some t \<Rightarrow> t) @ expand ps g"
| "expand (Text t # ps) g = t @ expand ps g"

definition js_replace :: "regexp \<Rightarrow> template_part list \<Rightarrow> jsstring \<Rightarrow> jsstring" where
  "js_replace re tpl s =
     (case rx_exec re None s of
        None \<Rightarrow> s
      | Some (start, after, cs) \<Rightarrow>
          take (length s - length start) s @ expand tpl (snd cs) @ after)"

text \<open>
  \<^verbatim>\<open>s.match(regexp)\<close> with the \<^verbatim>\<open>g\<close> flag collects the text of every match, each
  search starting where the last match ended; after an empty match the search moves one
  code unit on.
\<close>

definition matched_text :: "jsstring \<Rightarrow> jsstring \<Rightarrow> jsstring" where
  "matched_text start after = take (length start - length after) start"

lemma rx_match_length:
  "rx_match ic ml p prev rest cs = Some (after, cs') \<Longrightarrow> length after \<le> length rest"
  by (induction ic ml p prev rest cs rule: rx_match.induct)
     (auto split: if_splits option.splits)

lemma rx_exec_length:
  "rx_exec re prev s = Some (start, after, cs) \<Longrightarrow>
     length after \<le> length start \<and> length start \<le> length s"
  by (induction re prev s rule: rx_exec.induct)
     (auto split: option.splits dest: rx_match_length)

function rx_match_all :: "regexp \<Rightarrow> jschar option \<Rightarrow> jsstring \<Rightarrow> jsstring list" where
  "rx_match_all re prev s =
     (case rx_exec re prev s of
        None \<Rightarrow> []
      | Some (start, after, cs) \<Rightarrow>
          (if matched_text start after = []
           then (case after of
                   [] \<Rightarrow> [matched_text start after]
                 | c # rest \<Rightarrow> matched_text start after # rx_match_all re (Some c) rest)
           else matched_text start after
                  # rx_match_all re (Some (last (matched_text start after))) after))"
  by pat_completeness auto
termination
proof (relation "measure (\<lambda>(re, prev, s). length s)")
  show "wf (measure (\<lambda>(re, prev, s). length s))" by simp
next
  fix re :: regexp and prev s x2 start y after cs c rest
  assume "rx_exec re prev s = Some x2" "(start, y) = x2" "(after, cs) = y"
    "matched_text start after = []" "after = c # rest"
  then have "rx_exec re prev s = Some (start, after, cs)" by simp
  then have "length after \<le> length s"
    using rx_exec_length [of re prev s start after cs] by simp
  with \<open>after = c # rest\<close>
  show "((re, Some c, rest), (re, prev, s)) \<in> measure (\<lambda>(re, prev, s). length s)"
    by simp
next
  fix re :: regexp and prev s x2 start y after cs
  assume "rx_exec re prev s = Some x2" "(start, y) = x2" "(after, cs) = y"
    and ne: "matched_text start after \<noteq> []"
  then have "rx_exec re prev s = Some (start, after, cs)" by simp
  then have "length after \<le> length start \<and> length start \<le> length s"
    using rx_exec_length [of re prev s start after cs] by simp
  moreover from ne have "length after < length start"
    by (simp add: matched_text_def)
  ultimately
  show "((re, Some (last (matched_text start after)), after), (re, prev, s))
          \<in> measure (\<lambda>(re, prev, s). length s)"
    by simp
qed

definition js_match_g :: "regexp \<Rightarrow> jsstring \<Rightarrow> jsstring list option" where
  "js_match_g re s = (case rx_match_all re None s of [] \<Rightarrow> None | t # ts \<Rightarrow> Some (t # ts))"

section \<open>Splitting and joining lines\<close>

text \<open>\<^verbatim>\<open>s.split(sep)\<close> and \<^verbatim>\<open>lines.join(sep)\<close> for a separator of one code unit.\<close>

fun js_split :: "jschar \<Rightarrow> jsstring \<Rightarrow> jsstring list" where
  "js_split sep [] = [[]]"
| "js_split sep (c # s) =
     (if c = sep then [] # js_split sep s
      else (case js_split sep s of [] \<Rightarrow> [[c]] | l # ls \<Rightarrow> (c # l) # ls))"

fun js_join :: "jschar \<Rightarrow> jsstring list \<Rightarrow> jsstring" where
  "js_join sep [] = []"
| "js_join sep [l] = l"
| "js_join sep (l # l' # ls) = l @ sep # js_join sep (l' # ls)"

text \<open>
  Reading \<^verbatim>\<open>lines[i]\<close> gives \<^verbatim>\<open>undefined\<close> outside the array; a regular expression
  turns its argument into a string first, \<^verbatim>\<open>undefined\<close> into the text "undefined".
  Writing \<^verbatim>\<open>lines[i] = v\<close> past the end extends the array with holes, which \<^verbatim>\<open>join\<close>
  prints as empty strings; a negative index adds a property and leaves the elements alone.
\<close>

datatype jsval = Undefined | Str jsstring

fun to_string :: "jsval \<Rightarrow> jsstring" where
  "to_string Undefined = js ''undefined''"
| "to_string (Str s) = s"

definition array_get :: "jsstring list \<Rightarrow> int \<Rightarrow> jsval" where
  "array_get xs i = (if 0 \<le> i \<and> nat i < length xs then Str (xs ! nat i) else Undefined)"

definition array_set :: "jsstring list \<Rightarrow> int \<Rightarrow> jsstring \<Rightarrow> jsstring list" where
  "array_set xs i v =
     (if i < 0 then xs
      else if nat i < length xs then xs[nat i := v]
      else xs @ replicate (nat i - length xs) [] @ [v])"

section \<open>The scratchpad component\<close>

subsection \<open>Counting tasks\<close>

text \<open>
  \<^verbatim>\<open>/^[\s]*-\s*\[\s*\]\s*.+$/gm\<close> and \<^verbatim>\<open>/^[\s]*-\s*\[x\]\s*.+$/gim\<close>, the patterns of
  \<^verbatim>\<open>countUncheckedTasks\<close> and \<^verbatim>\<open>countCheckedTasks\<close>.
\<close>

definition re_count_unchecked :: regexp where
  "re_count_unchecked =
     \<lparr>pattern = [Bol, Star Space, One (PChar ch_dash), Star Space, One (PChar ch_lbracket),
                  Star Space, One (PChar ch_rbracket), Star Space, Plus Dot, Eol],
      ignoreCase = False, multiline = True\<rparr>"

definition re_count_checked :: regexp where
  "re_count_checked =
     \<lparr>pattern = [Bol, Star Space, One (PChar ch_dash), Star Space, One (PChar ch_lbracket),
                  One (PChar ch_x), One (PChar ch_rbracket), Star Space, Plus Dot, Eol],
      ignoreCase = True, multiline = True\<rparr>"

text \<open>
  The argument is \<open>None\<close> for \<^verbatim>\<open>undefined\<close>. \<^verbatim>\<open>!content\<close> holds for \<^verbatim>\<open>undefined\<close> and for
  the empty string.
\<close>

definition countUncheckedTasks :: "jsstring option \<Rightarrow> nat" where
  "countUncheckedTasks content =
     (case content of
        None \<Rightarrow> 0
      | Some s \<Rightarrow>
          if s = [] then 0
          else (case js_match_g re_count_unchecked s of None \<Rightarrow> 0 | Some ms \<Rightarrow> length ms))"

definition countCheckedTasks :: "jsstring option \<Rightarrow> nat" where
  "countCheckedTasks content =
     (case content of
        None \<Rightarrow> 0
      | Some s \<Rightarrow>
          if s = [] then 0
          else (case js_match_g re_count_checked s of None \<Rightarrow> 0 | Some ms \<Rightarrow> length ms))"

subsection \<open>Rendering a line\<close>

text \<open>
  \<^verbatim>\<open>TaskListRenderer\<close> tries \<^verbatim>\<open>/^(\s*)-\s*\[\s*\]\s*(.+)$/\<close> on each line, then
  \<^verbatim>\<open>/^(\s*)-\s*\[x\]\s*(.+)$/i\<close>; a line matching one of them is drawn as a checkbox
  that calls \<^verbatim>\<open>onToggleTask\<close> with the index of the line, with the first group as its
  indentation and the second as its text. The other lines (headers, blank lines, plain
  text) get no checkbox.
\<close>

definition re_render_unchecked :: regexp where
  "re_render_unchecked =
     \<lparr>pattern = [Bol, Open 1, Star Space, Close 1, One (PChar ch_dash), Star Space,
                  One (PChar ch_lbracket), Star Space, One (PChar ch_rbracket), Star Space,
                  Open 2, Plus Dot, Close 2, Eol],
      ignoreCase = False, multiline = False\<rparr>"

definition re_render_checked :: regexp where
  "re_render_checked =
     \<lparr>pattern = [Bol, Open 1, Star Space, Close 1, One (PChar ch_dash), Star Space,
                  One (PChar ch_lbracket), One (PChar ch_x), One (PChar ch_rbracket), Star Space,
                  Open 2, Plus Dot, Close 2, Eol],
      ignoreCase = True, multiline = False\<rparr>"

datatype task_view =
    UncheckedTask "jsstring option" "jsstring option"
  | CheckedTask "jsstring option" "jsstring option"
  | NoTask

definition render_line :: "jsstring \<Rightarrow> task_view" where
  "render_line line =
     (case js_match re_render_unchecked line of
        Some g \<Rightarrow> UncheckedTask (g 1) (g 2)
      | None \<Rightarrow>
          (case js_match re_render_checked line of
             Some g \<Rightarrow> CheckedTask (g 1) (g 2)
           | None \<Rightarrow> NoTask))"

subsection \<open>State and handlers\<close>

text \<open>
  The state of \<^verbatim>\<open>MobileScratchpad\<close>: the \<^verbatim>\<open>content\<close> prop, the local copy, the mode, and
  the arguments of the calls of \<^verbatim>\<open>onContentChange\<close> so far, oldest first.
\<close>

datatype mode = View | Edit

record scratchpad =
  content :: jsstring
  localContent :: jsstring
  mode :: mode
  contentChanges :: "jsstring list"

datatype js_error = TypeError

text \<open>
  \<^verbatim>\<open>/^(\s*)-\s*\[\s*\]\s*/\<close> and \<^verbatim>\<open>/^(\s*)-\s*\[x\]\s*/i\<close>, tested and replaced by
  \<^verbatim>\<open>handleToggleTask\<close>.
\<close>

definition re_toggle_unchecked :: regexp where
  "re_toggle_unchecked =
     \<lparr>pattern = [Bol, Open 1, Star Space, Close 1, One (PChar ch_dash), Star Space,
                  One (PChar ch_lbracket), Star Space, One (PChar ch_rbracket), Star Space],
      ignoreCase = False, multiline = False\<rparr>"

definition re_toggle_checked :: regexp where
  "re_toggle_checked =
     \<lparr>pattern = [Bol, Open 1, Star Space, Close 1, One (PChar ch_dash), Star Space,
                  One (PChar ch_lbracket), One (PChar ch_x), One (PChar ch_rbracket), Star Space],
      ignoreCase = True, multiline = False\<rparr>"

text \<open>
  The lines after the two tests. \<^verbatim>\<open>line.replace\<close> on \<^verbatim>\<open>undefined\<close> would throw a
  \<^verbatim>\<open>TypeError\<close>.
\<close>

definition toggle_lines :: "jsstring list \<Rightarrow> int \<Rightarrow> js_error + jsstring list" where
  "toggle_lines lines lineIndex =
     (let line = array_get lines lineIndex in
      if js_test re_toggle_unchecked (to_string line)
      then (case line of
              Undefined \<Rightarrow> Inl TypeError
            | Str l \<Rightarrow>
                Inr (array_set lines lineIndex
                       (js_replace re_toggle_unchecked [Group 1, Text (js ''- [x] '')] l)))
      else if js_test re_toggle_checked (to_string line)
      then (case line of
              Undefined \<Rightarrow> Inl TypeError
            | Str l \<Rightarrow>
                Inr (array_set lines lineIndex
                       (js_replace re_toggle_checked [Group 1, Text (js ''- [ ] '')] l)))
      else Inr lines)"

definition handleToggleTask :: "scratchpad \<Rightarrow> int \<Rightarrow> js_error + scratchpad" where
  "handleToggleTask st lineIndex =
     (case toggle_lines (js_split ch_nl (localContent st)) lineIndex of
        Inl e \<Rightarrow> Inl e
      | Inr lines \<Rightarrow>
          Inr (st\<lparr>localContent := js_join ch_nl lines,
                  contentChanges := contentChanges st @ [js_join ch_nl lines]\<rparr>))"

definition handleSave :: "scratchpad \<Rightarrow> scratchpad" where
  "handleSave st = st\<lparr>contentChanges := contentChanges st @ [localContent st], mode := View\<rparr>"

definition handleCancel :: "scratchpad \<Rightarrow> scratchpad" where
  "handleCancel st = st\<lparr>localContent := content st, mode := View\<rparr>"

text \<open>The \<^verbatim>\<open>onChange\<close> of the text area, and the two mode buttons.\<close>

definition setLocalContent :: "jsstring \<Rightarrow> scratchpad \<Rightarrow> scratchpad" where
  "setLocalContent v st = st\<lparr>localContent := v\<rparr>"

definition setMode :: "mode \<Rightarrow> scratchpad \<Rightarrow> scratchpad" where
  "setMode m st = st\<lparr>mode := m\<rparr>"

subsection \<open>Auto-run controls\<close>

text \<open>
  Modelled from the spec: the type \<^verbatim>\<open>AutoRunState\<close> is imported from
  \<^verbatim>\<open>../hooks/useWebSocket\<close>; its fields are the ones the spec lists and the component reads.
\<close>

record autoRunState =
  isRunning :: bool
  isStopping :: bool
  completedTasks :: nat
  runTotalTasks :: nat

text \<open>
  The props \<^verbatim>\<open>autoRunState\<close> (absent, \<^verbatim>\<open>null\<close> or a state) and \<^verbatim>\<open>isSessionBusy\<close> (absent
  or a boolean) are optional.
\<close>

record controls =
  autoRun :: "autoRunState option"
  isSessionBusy :: "bool option"

definition uncheckedCount :: "scratchpad \<Rightarrow> nat" where
  "uncheckedCount st = countUncheckedTasks (Some (localContent st))"

definition checkedCount :: "scratchpad \<Rightarrow> nat" where
  "checkedCount st = countCheckedTasks (Some (localContent st))"

definition totalTasks :: "scratchpad \<Rightarrow> nat" where
  "totalTasks st = uncheckedCount st + checkedCount st"

definition isAutoRunning :: "controls \<Rightarrow> bool" where
  "isAutoRunning c = (case autoRun c of None \<Rightarrow> False | Some a \<Rightarrow> isRunning a)"

definition canStartAutoRun :: "controls \<Rightarrow> scratchpad \<Rightarrow> bool" where
  "canStartAutoRun c st =
     (\<not> isAutoRunning c \<and> \<not> (case isSessionBusy c of None \<Rightarrow> False | Some b \<Rightarrow> b)
      \<and> 0 < uncheckedCount st)"

text \<open>
  The footer: Cancel and Save in edit mode; in view mode the Stop button while auto-run is
  running, else the Start button. The flag of a button is its \<^verbatim>\<open>disabled\<close> attribute.
\<close>

datatype footer = CancelSave | StopButton bool | StartButton bool

definition render_footer :: "controls \<Rightarrow> scratchpad \<Rightarrow> footer" where
  "render_footer c st =
     (if mode st = Edit then CancelSave
      else if isAutoRunning c
      then StopButton (case autoRun c of None \<Rightarrow> False | Some a \<Rightarrow> isStopping a)
      else StartButton (\<not> canStartAutoRun c st))"

section \<open>Auxiliary notions\<close>

text \<open>Every group, open or closed, holds only code units of the set \<open>A\<close>.\<close>

definition captures_within :: "jschar set \<Rightarrow> captures \<Rightarrow> bool" where
  "captures_within A cs =
     ((\<forall>k t. fst cs k = Some t \<longrightarrow> set t \<subseteq> A) \<and> (\<forall>k t. snd cs k = Some t \<longrightarrow> set t \<subseteq> A))"

text \<open>Maximal-munch reading of the marker prefixes, used to describe the matches.\<close>

definition skip_ws :: "jsstring \<Rightarrow> jsstring" where
  "skip_ws = dropWhile is_whitespace"

definition ch_X :: jschar where "ch_X = 0x58"

definition after_marker_unchecked :: "jsstring \<Rightarrow> jsstring option" where
  "after_marker_unchecked l =
     (case skip_ws l of
        [] \<Rightarrow> None
      | c1 # r1 \<Rightarrow>
          if c1 \<noteq> ch_dash then None
          else (case skip_ws r1 of
                  [] \<Rightarrow> None
                | c2 # r2 \<Rightarrow>
                    if c2 \<noteq> ch_lbracket then None
                    else (case skip_ws r2 of
                            [] \<Rightarrow> None
                          | c3 # r3 \<Rightarrow> if c3 \<noteq> ch_rbracket then None else Some r3)))"

definition after_marker_checked :: "jsstring \<Rightarrow> jsstring option" where
  "after_marker_checked l =
     (case skip_ws l of
        [] \<Rightarrow> None
      | c1 # r1 \<Rightarrow>
          if c1 \<noteq> ch_dash then None
          else (case skip_ws r1 of
                  [] \<Rightarrow> None
                | c2 # r2 \<Rightarrow>
                    if c2 \<noteq> ch_lbracket then None
                    else (case r2 of
                            [] \<Rightarrow> None
                          | c3 # r3 \<Rightarrow>
                              if c3 \<noteq> ch_x \<and> c3 \<noteq> ch_X then None
                              else (case r3 of
                                      [] \<Rightarrow> None
                                    | c4 # r4 \<Rightarrow>
                                        if c4 \<noteq> ch_rbracket then None else Some r4))))"

definition indent_captured :: "jsstring \<Rightarrow> captures" where
  "indent_captured line = close_group 1 (skip_ws line) (open_group 1 line no_captures)"

text \<open>The line a toggle writes, read off the marker prefix.\<close>

definition toggled_line :: "jsstring \<Rightarrow> jsstring" where
  "toggled_line l =
     (case after_marker_unchecked l of
        Some r \<Rightarrow> takeWhile is_whitespace l @ js ''- [x] '' @ skip_ws r
      | None \<Rightarrow>
          (case after_marker_checked l of
             Some r \<Rightarrow> takeWhile is_whitespace l @ js ''- [ ] '' @ skip_ws r
           | None \<Rightarrow> l))"

text \<open>One try of a regular expression at a position, as \<open>rx_exec\<close> makes it.\<close>

definition attempt ::
  "regexp \<Rightarrow> jschar option \<Rightarrow> jsstring \<Rightarrow> (jsstring \<times> captures) option" where
  "attempt re prev s = rx_match (ignoreCase re) (multiline re) (pattern re) prev s no_captures"

text \<open>A pattern that only matches at the start of a line.\<close>

definition anchored :: "regexp \<Rightarrow> bool" where
  "anchored re = (\<forall>prev s. \<not> at_bol True prev \<longrightarrow> attempt re prev s = None)"

text \<open>
  A line that is only the beginning of a marker, or a whole marker, with nothing but
  whitespace after it: \<^verbatim>\<open>-\<close>, \<^verbatim>\<open>- [\<close>, \<^verbatim>\<open>- [ ]\<close>, \<^verbatim>\<open>- [x]\<close>, in any spacing the patterns
  allow.
\<close>

definition bare_marker :: "jsstring \<Rightarrow> bool" where
  "bare_marker l =
     (case skip_ws l of
        [] \<Rightarrow> False
      | c1 # r1 \<Rightarrow>
          c1 = ch_dash \<and>
          (case skip_ws r1 of
             [] \<Rightarrow> True
           | c2 # r2 \<Rightarrow>
               c2 = ch_lbracket \<and>
               (skip_ws r2 = []
                \<or> (case after_marker_unchecked l of None \<Rightarrow> False | Some r \<Rightarrow> skip_ws r = [])
                \<or> (case after_marker_checked l of None \<Rightarrow> False | Some r \<Rightarrow> skip_ws r = []))))"

definition plain_line :: "jsstring \<Rightarrow> bool" where
  "plain_line l = ((\<forall>c \<in> set l. \<not> is_line_terminator c) \<and> \<not> bare_marker l)"

text \<open>
  What the scan of a text needs from a pattern to count the lines with the property \<open>P\<close>:
  it is anchored at line starts, passes over blank lines, and on any other plain line matches
  exactly that line when \<open>P\<close> holds and nothing otherwise.
\<close>

definition counts_lines :: "regexp \<Rightarrow> (jsstring \<Rightarrow> bool) \<Rightarrow> bool" where
  "counts_lines re P =
     (anchored re
      \<and> (\<forall>prev s after cs. attempt re prev s = Some (after, cs) \<longrightarrow> after \<noteq> s)
      \<and> (\<forall>prev l. skip_ws l = [] \<longrightarrow> attempt re prev l = None)
      \<and> (\<forall>prev l R. at_bol True prev \<longrightarrow> skip_ws l = [] \<longrightarrow>
            attempt re prev (l @ ch_nl # R) = attempt re (Some ch_nl) R)
      \<and> (\<forall>prev l tail. at_bol True prev \<longrightarrow> plain_line l \<longrightarrow> skip_ws l \<noteq> [] \<longrightarrow>
            (tail = [] \<or> (\<exists>R. tail = ch_nl # R)) \<longrightarrow>
            attempt re prev (l @ tail) = (if P l then Some (tail, no_captures) else None))
      \<and> (\<forall>l. skip_ws l = [] \<longrightarrow> \<not> P l))"

text \<open>
  The task-line patterns as the specification words them, \<^verbatim>\<open>^\s*-\s*\[ \]\s*.+\<close> and
  \<^verbatim>\<open>^\s*-\s*\[x\]\s*.+\<close> (case-insensitive), tried on each line, to compare the counters
  with.
\<close>

definition spec_re_unchecked :: regexp where
  "spec_re_unchecked =
     \<lparr>pattern = [Bol, Star Space, One (PChar ch_dash), Star Space, One (PChar ch_lbracket),
                  One (PChar ch_space), One (PChar ch_rbracket), Star Space, Plus Dot],
      ignoreCase = False, multiline = False\<rparr>"

definition spec_re_checked :: regexp where
  "spec_re_checked =
     \<lparr>pattern = [Bol, Star Space, One (PChar ch_dash), Star Space, One (PChar ch_lbracket),
                  One (PChar ch_x), One (PChar ch_rbracket), Star Space, Plus Dot],
      ignoreCase = True, multiline = False\<rparr>"

definition spec_unchecked_lines :: "jsstring \<Rightarrow> nat" where
  "spec_unchecked_lines text = length (filter (js_test spec_re_unchecked) (js_split ch_nl text))"

definition spec_checked_lines :: "jsstring \<Rightarrow> nat" where
  "spec_checked_lines text = length (filter (js_test spec_re_checked) (js_split ch_nl text))"

section \<open>Lines of a content string\<close>

lemma js_split_not_Nil: "js_split sep s \<noteq> []"
  by (induction s) (auto split: list.splits)

lemma js_join_Cons_Cons: "js_join sep ((c # l) # ls) = c # js_join sep (l # ls)"
  by (cases ls) simp_all

lemma js_join_Nil_Cons: "ls \<noteq> [] \<Longrightarrow> js_join sep ([] # ls) = sep # js_join sep ls"
  by (cases ls) simp_all

lemma js_join_split: "js_join sep (js_split sep s) = s"
proof (induction s)
  case Nil
  show ?case by simp
next
  case (Cons c s)
  show ?case
  proof (cases "c = sep")
    case True
    with Cons show ?thesis by (simp add: js_join_Nil_Cons js_split_not_Nil)
  next
    case False
    obtain l ls where "js_split sep s = l # ls"
      using js_split_not_Nil [of sep s] by (cases "js_split sep s") auto
    with False Cons show ?thesis by (simp add: js_join_Cons_Cons)
  qed
qed

lemma js_split_no_sep: "l \<in> set (js_split sep s) \<Longrightarrow> sep \<notin> set l"
proof (induction s arbitrary: l)
  case Nil
  then show ?case by simp
next
  case (Cons c s)
  obtain l0 ls where sp: "js_split sep s = l0 # ls"
    using js_split_not_Nil [of sep s] by (cases "js_split sep s") auto
  with Cons show ?case
    by (auto split: if_splits)
qed

lemma js_split_join:
  "ls \<noteq> [] \<Longrightarrow> \<forall>l \<in> set ls. sep \<notin> set l \<Longrightarrow> js_split sep (js_join sep ls) = ls"
proof (induction sep ls rule: js_join.induct)
  case (1 sep)
  then show ?case by simp
next
  case (2 sep l)
  then show ?case by (induction l) auto
next
  case (3 sep l l' ls)
  then have tl: "js_split sep (js_join sep (l' # ls)) = l' # ls" by simp
  from 3 have "sep \<notin> set l" by simp
  then show ?case using tl
    by (induction l) auto
qed

section \<open>The counters on empty and absent input\<close>

text \<open>
  C6: \<^verbatim>\<open>countUncheckedTasks\<close> and \<^verbatim>\<open>countCheckedTasks\<close> return 0 on the empty string and
  on \<^verbatim>\<open>undefined\<close>. Both return before any regular expression runs, so nothing can throw.
\<close>

theorem count_empty_or_undefined:
  "countUncheckedTasks (Some []) = 0 \<and> countUncheckedTasks None = 0
   \<and> countCheckedTasks (Some []) = 0 \<and> countCheckedTasks None = 0"
  by (simp add: countUncheckedTasks_def countCheckedTasks_def)

section \<open>The Start control\<close>

text \<open>
  C7: the Start control is enabled exactly when auto-run is not running, the session is not
  busy and the local content has at least one unchecked task; the footer shows the Start
  button with \<^verbatim>\<open>disabled\<close> set to the negation of that conjunction.
\<close>

theorem canStartAutoRun_conjunction:
  "canStartAutoRun c st =
     (\<not> (\<exists>a. autoRun c = Some a \<and> isRunning a) \<and> isSessionBusy c \<noteq> Some True
      \<and> 0 < countUncheckedTasks (Some (localContent st)))
   \<and> render_footer c st =
       (if mode st = Edit then CancelSave
        else if \<exists>a. autoRun c = Some a \<and> isRunning a
        then StopButton (\<exists>a. autoRun c = Some a \<and> isStopping a)
        else StartButton (\<not> (\<not> (\<exists>a. autoRun c = Some a \<and> isRunning a)
                               \<and> isSessionBusy c \<noteq> Some True
                               \<and> 0 < countUncheckedTasks (Some (localContent st)))))"
  by (auto simp: canStartAutoRun_def render_footer_def isAutoRunning_def uncheckedCount_def
           split: option.splits)

section \<open>Cancel and Save\<close>

text \<open>
  C8: after entering edit mode and typing a draft, Cancel puts the committed content back
  into the local content, returns to view mode and calls \<^verbatim>\<open>onContentChange\<close> not at all;
  Save calls \<^verbatim>\<open>onContentChange\<close> once, with the draft, and returns to view mode.
\<close>

theorem cancel_and_save:
  "handleCancel (setLocalContent draft (setMode Edit st))
     = st\<lparr>localContent := content st, mode := View\<rparr>
   \<and> contentChanges (handleCancel (setLocalContent draft (setMode Edit st))) = contentChanges st
   \<and> handleSave (setLocalContent draft (setMode Edit st))
     = st\<lparr>localContent := draft, mode := View, contentChanges := contentChanges st @ [draft]\<rparr>"
  by (simp add: handleCancel_def handleSave_def setLocalContent_def setMode_def)

section \<open>Toggling outside the lines\<close>

lemma test_undefined:
  "\<not> js_test re_toggle_unchecked (js ''undefined'')"
  "\<not> js_test re_toggle_checked (js ''undefined'')"
  by code_simp+

lemma toggle_lines_outside:
  assumes "i < 0 \<or> int (length lines) \<le> i"
  shows "toggle_lines lines i = Inr lines"
proof -
  from assms have "array_get lines i = Undefined"
    by (auto simp: array_get_def)
  then show ?thesis
    by (simp add: toggle_lines_def test_undefined)
qed

text \<open>
  C10: for a line index that is negative or at least the number of lines,
  \<^verbatim>\<open>handleToggleTask\<close> throws nothing and leaves the content as it is (it still reports the
  unchanged content through \<^verbatim>\<open>onContentChange\<close>).
\<close>

theorem toggle_out_of_range:
  assumes "lineIndex < 0 \<or> int (length (js_split ch_nl (localContent st))) \<le> lineIndex"
  shows "handleToggleTask st lineIndex =
           Inr (st\<lparr>contentChanges := contentChanges st @ [localContent st]\<rparr>)"
  using toggle_lines_outside [OF assms]
  by (simp add: handleToggleTask_def js_join_split)

theorem toggle_out_of_range_witness:
  "handleToggleTask \<lparr>content = js ''- [ ] A'', localContent = js ''- [ ] A'', mode = View,
                      contentChanges = []\<rparr> 1
     = Inr \<lparr>content = js ''- [ ] A'', localContent = js ''- [ ] A'', mode = View,
            contentChanges = [js ''- [ ] A'']\<rparr>
   \<and> handleToggleTask \<lparr>content = js ''- [ ] A'', localContent = js ''- [ ] A'', mode = View,
                      contentChanges = []\<rparr> (- 1)
     = Inr \<lparr>content = js ''- [ ] A'', localContent = js ''- [ ] A'', mode = View,
            contentChanges = [js ''- [ ] A'']\<rparr>"
  using toggle_out_of_range [of 1 "\<lparr>content = js ''- [ ] A'', localContent = js ''- [ ] A'',
                                     mode = View, contentChanges = []\<rparr>"]
    toggle_out_of_range [of "- 1" "\<lparr>content = js ''- [ ] A'', localContent = js ''- [ ] A'',
                                     mode = View, contentChanges = []\<rparr>"]
  by (simp add: js_def ch_nl_def)

section \<open>What a toggle leaves alone\<close>

lemma captures_within_mono:
  "captures_within A cs \<Longrightarrow> A \<subseteq> B \<Longrightarrow> captures_within B cs"
  unfolding captures_within_def by blast

lemma captures_within_open:
  "captures_within A cs \<Longrightarrow> set rest \<subseteq> A \<Longrightarrow> captures_within A (open_group k rest cs)"
  by (auto simp: captures_within_def open_group_def)

lemma captures_within_close:
  "captures_within A cs \<Longrightarrow> captures_within A (close_group k rest cs)"
  by (auto simp: captures_within_def close_group_def split: option.splits dest!: in_set_takeD)

lemma rx_match_within:
  "rx_match ic ml p prev rest cs = Some (after, cs') \<Longrightarrow> set rest \<subseteq> A \<Longrightarrow>
     captures_within A cs \<Longrightarrow> set after \<subseteq> A \<and> captures_within A cs'"
proof (induction ic ml p prev rest cs rule: rx_match.induct)
  case (10 ic ml k r prev rest cs)
  then show ?case by (simp add: captures_within_open)
next
  case (11 ic ml k r prev rest cs)
  then show ?case by (simp add: captures_within_close)
qed (auto split: if_splits option.splits)

lemma rx_exec_within:
  "rx_exec re prev s = Some (start, after, cs) \<Longrightarrow>
     set after \<subseteq> set s \<and> captures_within (set s) cs"
proof (induction re prev s rule: rx_exec.induct)
  case (1 re prev)
  then show ?case
    by (auto split: option.splits dest!: rx_match_within [where A = "{}"]
             simp: captures_within_def no_captures_def)
next
  case (2 re prev c rest)
  show ?case
  proof (cases "rx_match (ignoreCase re) (multiline re) (pattern re) prev (c # rest) no_captures")
    case None
    with 2 have "set after \<subseteq> set rest \<and> captures_within (set rest) cs" by simp
    then show ?thesis
      using captures_within_mono [of "set rest" cs "set (c # rest)"] by auto
  next
    case (Some res)
    with 2 have "rx_match (ignoreCase re) (multiline re) (pattern re) prev (c # rest) no_captures
                   = Some (after, cs)"
      by (cases res) simp
    from rx_match_within [OF this, of "set (c # rest)"]
    show ?thesis by (simp add: captures_within_def no_captures_def)
  qed
qed

lemma js_replace_within:
  "set (js_replace re [Group k, Text t] s) \<subseteq> set s \<union> set t"
proof (cases "rx_exec re None s")
  case None
  then show ?thesis by (simp add: js_replace_def)
next
  case (Some res)
  obtain start after cs where res: "res = (start, after, cs)" by (cases res)
  from rx_exec_within [of re None s start after cs] Some res
  have "set after \<subseteq> set s" "captures_within (set s) cs" by simp_all
  moreover have "set (take n s) \<subseteq> set s" for n
    by (rule set_take_subset)
  moreover have "set (case snd cs k of None \<Rightarrow> [] | Some g \<Rightarrow> g) \<subseteq> set s"
    using \<open>captures_within (set s) cs\<close>
    by (cases "snd cs k") (simp_all add: captures_within_def)
  ultimately show ?thesis using Some res
    by (auto simp: js_replace_def)
qed

lemma js_literal_no_nl: "ch_nl \<notin> set (js ''- [x] '')" "ch_nl \<notin> set (js ''- [ ] '')"
  by (simp_all add: js_def ch_nl_def)

lemma toggle_lines_frame:
  "\<exists>l'. toggle_lines lines i = Inr (if 0 \<le> i \<and> nat i < length lines then lines[nat i := l'] else lines)
        \<and> (ch_nl \<notin> set (lines ! nat i) \<longrightarrow> ch_nl \<notin> set l')"
proof (cases "0 \<le> i \<and> nat i < length lines")
  case False
  then have "toggle_lines lines i = Inr lines"
    by (intro toggle_lines_outside) auto
  with False show ?thesis by auto
next
  case True
  let ?l = "lines ! nat i"
  have get: "array_get lines i = Str ?l" using True by (simp add: array_get_def)
  have set: "array_set lines i v = lines[nat i := v]" for v
    using True by (simp add: array_set_def)
  consider (u) "js_test re_toggle_unchecked ?l"
    | (c) "\<not> js_test re_toggle_unchecked ?l" "js_test re_toggle_checked ?l"
    | (n) "\<not> js_test re_toggle_unchecked ?l" "\<not> js_test re_toggle_checked ?l"
    by blast
  then show ?thesis
  proof cases
    case u
    have "ch_nl \<notin> set ?l \<longrightarrow>
            ch_nl \<notin> set (js_replace re_toggle_unchecked [Group 1, Text (js ''- [x] '')] ?l)"
      using js_replace_within [of re_toggle_unchecked 1 "js ''- [x] ''" ?l] js_literal_no_nl
      by auto
    with u True get set show ?thesis
      by (auto simp: toggle_lines_def)
  next
    case c
    have "ch_nl \<notin> set ?l \<longrightarrow>
            ch_nl \<notin> set (js_replace re_toggle_checked [Group 1, Text (js ''- [ ] '')] ?l)"
      using js_replace_within [of re_toggle_checked 1 "js ''- [ ] ''" ?l] js_literal_no_nl
      by auto
    with c True get set show ?thesis
      by (auto simp: toggle_lines_def)
  next
    case n
    with True get have "toggle_lines lines i = Inr (lines[nat i := ?l])"
      by (simp add: toggle_lines_def)
    with True show ?thesis by (intro exI [of _ ?l]) simp
  qed
qed

text \<open>
  C9: for every content and every line index, \<^verbatim>\<open>handleToggleTask\<close> returns content with
  the same number of lines, and every line other than the one at the index is as before.
\<close>

theorem toggle_keeps_other_lines:
  "\<exists>st'. handleToggleTask st lineIndex = Inr st'
     \<and> length (js_split ch_nl (localContent st')) = length (js_split ch_nl (localContent st))
     \<and> (\<forall>j. int j \<noteq> lineIndex \<longrightarrow>
            js_split ch_nl (localContent st') ! j = js_split ch_nl (localContent st) ! j)"
proof -
  let ?ls = "js_split ch_nl (localContent st)"
  obtain l' where tl: "toggle_lines ?ls lineIndex
        = Inr (if 0 \<le> lineIndex \<and> nat lineIndex < length ?ls then ?ls[nat lineIndex := l'] else ?ls)"
    and nl: "ch_nl \<notin> set (?ls ! nat lineIndex) \<longrightarrow> ch_nl \<notin> set l'"
    using toggle_lines_frame [of ?ls lineIndex] by blast
  let ?ls' = "if 0 \<le> lineIndex \<and> nat lineIndex < length ?ls then ?ls[nat lineIndex := l'] else ?ls"
  have free: "\<forall>l \<in> set ?ls'. ch_nl \<notin> set l"
  proof (cases "0 \<le> lineIndex \<and> nat lineIndex < length ?ls")
    case True
    then have "?ls ! nat lineIndex \<in> set ?ls" by simp
    then have "ch_nl \<notin> set l'" using nl js_split_no_sep by blast
    with True show ?thesis
      by (auto dest!: set_update_subset_insert [THEN subsetD] js_split_no_sep)
  next
    case False
    then show ?thesis by (auto dest: js_split_no_sep)
  qed
  have "?ls' \<noteq> []" using js_split_not_Nil [of ch_nl "localContent st"] by auto
  then have resplit: "js_split ch_nl (js_join ch_nl ?ls') = ?ls'"
    using free by (rule js_split_join)
  have other: "\<forall>j. int j \<noteq> lineIndex \<longrightarrow> ?ls' ! j = ?ls ! j"
    by auto
  have len: "length ?ls' = length ?ls" by simp
  show ?thesis
    unfolding handleToggleTask_def tl using resplit other len
    by simp
qed

theorem toggle_keeps_other_lines_witness:
  "\<exists>st'. handleToggleTask \<lparr>content = [], localContent = js ''- [ ] A\<newline>- [x] B'', mode = View,
                                contentChanges = []\<rparr> 0 = Inr st'
     \<and> length (js_split ch_nl (localContent st')) = 2
     \<and> js_split ch_nl (localContent st') ! 1 = js ''- [x] B''"
proof -
  let ?st = "\<lparr>content = [], localContent = js ''- [ ] A\<newline>- [x] B'', mode = View,
              contentChanges = []\<rparr>"
  have sp: "js_split ch_nl (localContent ?st) = [js ''- [ ] A'', js ''- [x] B'']"
    by (simp add: js_def ch_nl_def)
  obtain st' where h: "handleToggleTask ?st 0 = Inr st'"
      "length (js_split ch_nl (localContent st')) = length (js_split ch_nl (localContent ?st))"
      "\<forall>j. int j \<noteq> 0 \<longrightarrow>
         js_split ch_nl (localContent st') ! j = js_split ch_nl (localContent ?st) ! j"
    using toggle_keeps_other_lines [of ?st 0] by blast
  from h(3) have "js_split ch_nl (localContent st') ! 1 = js_split ch_nl (localContent ?st) ! 1"
    by simp
  with h(1,2) show ?thesis unfolding sp by simp
qed

section \<open>Characters\<close>

lemma atom_dash [simp]: "atom_matches ic (PChar ch_dash) c \<longleftrightarrow> c = ch_dash"
  by (auto simp: canonicalize_def ch_dash_def)

lemma atom_lbracket [simp]: "atom_matches ic (PChar ch_lbracket) c \<longleftrightarrow> c = ch_lbracket"
  by (auto simp: canonicalize_def ch_lbracket_def)

lemma atom_rbracket [simp]: "atom_matches ic (PChar ch_rbracket) c \<longleftrightarrow> c = ch_rbracket"
  by (auto simp: canonicalize_def ch_rbracket_def)

lemma atom_x_ci [simp]: "atom_matches True (PChar ch_x) c \<longleftrightarrow> c = ch_x \<or> c = ch_X"
  by (auto simp: canonicalize_def ch_x_def ch_X_def)

declare atom_matches.simps(1) [simp del]

lemma not_ws [simp]:
  "\<not> is_whitespace ch_dash" "\<not> is_whitespace ch_lbracket" "\<not> is_whitespace ch_rbracket"
  "\<not> is_whitespace ch_x" "\<not> is_whitespace ch_X"
  by (simp_all add: is_whitespace_def is_line_terminator_def ch_dash_def ch_lbracket_def
        ch_rbracket_def ch_x_def ch_X_def)

lemma chars_distinct [simp]:
  "ch_x \<noteq> ch_rbracket" "ch_X \<noteq> ch_rbracket" "ch_rbracket \<noteq> ch_x" "ch_rbracket \<noteq> ch_X"
  by (simp_all add: ch_rbracket_def ch_x_def ch_X_def)

lemma line_terminator_is_whitespace: "is_line_terminator c \<Longrightarrow> is_whitespace c"
  by (simp add: is_whitespace_def)

lemma nl_is_line_terminator [simp]: "is_line_terminator ch_nl"
  by (simp add: is_line_terminator_def ch_nl_def)

lemma nl_is_whitespace [simp]: "is_whitespace ch_nl"
  by (simp add: line_terminator_is_whitespace)

section \<open>Segments of the patterns\<close>

lemma skip_ws_simps [simp]:
  "skip_ws [] = []"
  "skip_ws (c # s) = (if is_whitespace c then skip_ws s else c # s)"
  by (simp_all add: skip_ws_def)

lemma rx_match_ws_char:
  assumes "\<And>c. is_whitespace c \<Longrightarrow> \<not> atom_matches ic (PChar p) c"
  shows "rx_match ic ml (Star Space # One (PChar p) # r) prev s cs =
          (case skip_ws s of
             [] \<Rightarrow> None
           | c # s' \<Rightarrow>
               if atom_matches ic (PChar p) c then rx_match ic ml r (Some c) s' cs else None)"
proof (induction s arbitrary: prev)
  case Nil
  show ?case by simp
next
  case (Cons c s)
  show ?case
  proof (cases "is_whitespace c")
    case True
    then have "rx_match ic ml (One (PChar p) # r) prev (c # s) cs = None"
      using assms by simp
    with True show ?thesis
      using Cons [of "Some c"] by (simp split: option.splits)
  next
    case False
    then show ?thesis by simp
  qed
qed

lemma rx_match_ws_close_char:
  assumes "\<And>c. is_whitespace c \<Longrightarrow> \<not> atom_matches ic (PChar p) c"
  shows "rx_match ic ml (Star Space # Close k # One (PChar p) # r) prev s cs =
          (case skip_ws s of
             [] \<Rightarrow> None
           | c # s' \<Rightarrow>
               if atom_matches ic (PChar p) c
               then rx_match ic ml r (Some c) s' (close_group k (c # s') cs) else None)"
proof (induction s arbitrary: prev)
  case Nil
  show ?case by simp
next
  case (Cons c s)
  show ?case
  proof (cases "is_whitespace c")
    case True
    then have "rx_match ic ml (Close k # One (PChar p) # r) prev (c # s) cs = None"
      using assms by simp
    with True show ?thesis
      using Cons [of "Some c"] by (simp split: option.splits)
  next
    case False
    then show ?thesis by simp
  qed
qed

lemma rx_match_ws_end:
  "rx_match ic ml [Star Space] prev s cs = Some (skip_ws s, cs)"
  by (induction s arbitrary: prev) simp_all

lemma seg_dash:
  "rx_match ic ml (Star Space # Close k # One (PChar ch_dash) # r) prev s cs =
     (case skip_ws s of
        [] \<Rightarrow> None
      | c # s' \<Rightarrow>
          if c = ch_dash then rx_match ic ml r (Some c) s' (close_group k (c # s') cs) else None)"
  by (subst rx_match_ws_close_char) (auto split: list.splits)

lemma seg_lbracket:
  "rx_match ic ml (Star Space # One (PChar ch_lbracket) # r) prev s cs =
     (case skip_ws s of
        [] \<Rightarrow> None
      | c # s' \<Rightarrow> if c = ch_lbracket then rx_match ic ml r (Some c) s' cs else None)"
  by (subst rx_match_ws_char) (auto split: list.splits)

lemma seg_rbracket:
  "rx_match ic ml (Star Space # One (PChar ch_rbracket) # r) prev s cs =
     (case skip_ws s of
        [] \<Rightarrow> None
      | c # s' \<Rightarrow> if c = ch_rbracket then rx_match ic ml r (Some c) s' cs else None)"
  by (subst rx_match_ws_char) (auto split: list.splits)

lemma take_skip_ws: "take (length s - length (skip_ws s)) s = takeWhile is_whitespace s"
proof -
  have "length s - length (dropWhile is_whitespace s) = length (takeWhile is_whitespace s)"
    using length_append [of "takeWhile is_whitespace s" "dropWhile is_whitespace s"]
    by simp
  then show ?thesis
    by (simp add: skip_ws_def takeWhile_eq_take [symmetric])
qed

lemma indent_captured_1 [simp]: "snd (indent_captured line) 1 = Some (takeWhile is_whitespace line)"
  by (simp add: indent_captured_def close_group_def open_group_def no_captures_def take_skip_ws)

lemma rx_match_toggle_unchecked:
  "rx_match False False (pattern re_toggle_unchecked) None line no_captures =
     (case after_marker_unchecked line of
        None \<Rightarrow> None
      | Some r \<Rightarrow> Some (skip_ws r, indent_captured line))"
  by (simp add: re_toggle_unchecked_def at_bol_def seg_dash seg_lbracket seg_rbracket
        rx_match_ws_end after_marker_unchecked_def indent_captured_def split: list.splits)

lemma rx_match_toggle_checked:
  "rx_match True False (pattern re_toggle_checked) None line no_captures =
     (case after_marker_checked line of
        None \<Rightarrow> None
      | Some r \<Rightarrow> Some (skip_ws r, indent_captured line))"
  by (simp add: re_toggle_checked_def at_bol_def seg_dash seg_lbracket
        rx_match_ws_end after_marker_checked_def indent_captured_def split: list.splits)

section \<open>The two tests and replacements of the toggle\<close>

lemma rx_exec_anchored:
  "pattern re = Bol # r \<Longrightarrow> \<not> multiline re \<Longrightarrow> rx_exec re (Some c) s = None"
  by (induction s arbitrary: c) (simp_all add: at_bol_def)

lemma rx_exec_start:
  assumes "pattern re = Bol # r" "\<not> multiline re"
  shows "rx_exec re None s =
           (case rx_match (ignoreCase re) False (pattern re) None s no_captures of
              None \<Rightarrow> None
            | Some (after, cs) \<Rightarrow> Some (s, after, cs))"
proof (cases s)
  case Nil
  with assms(2) show ?thesis by (simp split: option.splits)
next
  case (Cons c s')
  with assms(2) rx_exec_anchored [OF assms] show ?thesis
    by (simp split: option.splits)
qed

lemma indent_captured_Suc_0 [simp]:
  "snd (indent_captured line) (Suc 0) = Some (takeWhile is_whitespace line)"
  using indent_captured_1 [of line] by simp

lemma rx_exec_toggle_unchecked:
  "rx_exec re_toggle_unchecked None l =
     (case after_marker_unchecked l of
        None \<Rightarrow> None
      | Some r \<Rightarrow> Some (l, skip_ws r, indent_captured l))"
proof -
  have "rx_exec re_toggle_unchecked None l =
          (case rx_match (ignoreCase re_toggle_unchecked) False (pattern re_toggle_unchecked)
                  None l no_captures of
             None \<Rightarrow> None
           | Some (after, cs) \<Rightarrow> Some (l, after, cs))"
    by (rule rx_exec_start [where r = "tl (pattern re_toggle_unchecked)"])
       (simp_all add: re_toggle_unchecked_def)
  moreover have "ignoreCase re_toggle_unchecked = False"
    by (simp add: re_toggle_unchecked_def)
  ultimately show ?thesis
    by (simp add: rx_match_toggle_unchecked split: option.splits)
qed

lemma rx_exec_toggle_checked:
  "rx_exec re_toggle_checked None l =
     (case after_marker_checked l of
        None \<Rightarrow> None
      | Some r \<Rightarrow> Some (l, skip_ws r, indent_captured l))"
proof -
  have "rx_exec re_toggle_checked None l =
          (case rx_match (ignoreCase re_toggle_checked) False (pattern re_toggle_checked)
                  None l no_captures of
             None \<Rightarrow> None
           | Some (after, cs) \<Rightarrow> Some (l, after, cs))"
    by (rule rx_exec_start [where r = "tl (pattern re_toggle_checked)"])
       (simp_all add: re_toggle_checked_def)
  moreover have "ignoreCase re_toggle_checked = True"
    by (simp add: re_toggle_checked_def)
  ultimately show ?thesis
    by (simp add: rx_match_toggle_checked split: option.splits)
qed

lemma js_test_toggle_unchecked:
  "js_test re_toggle_unchecked l \<longleftrightarrow> after_marker_unchecked l \<noteq> None"
  by (simp add: js_test_def rx_exec_toggle_unchecked split: option.splits)

lemma js_test_toggle_checked:
  "js_test re_toggle_checked l \<longleftrightarrow> after_marker_checked l \<noteq> None"
  by (simp add: js_test_def rx_exec_toggle_checked split: option.splits)

lemma js_replace_toggle_unchecked:
  "js_replace re_toggle_unchecked [Group (Suc 0), Text t] l =
     (case after_marker_unchecked l of
        None \<Rightarrow> l
      | Some r \<Rightarrow> takeWhile is_whitespace l @ t @ skip_ws r)"
  by (simp add: js_replace_def rx_exec_toggle_unchecked split: option.splits)

lemma js_replace_toggle_checked:
  "js_replace re_toggle_checked [Group (Suc 0), Text t] l =
     (case after_marker_checked l of
        None \<Rightarrow> l
      | Some r \<Rightarrow> takeWhile is_whitespace l @ t @ skip_ws r)"
  by (simp add: js_replace_def rx_exec_toggle_checked split: option.splits)

lemma checked_not_unchecked:
  "after_marker_checked l = Some r \<Longrightarrow> after_marker_unchecked l = None"
  by (auto simp: after_marker_checked_def after_marker_unchecked_def
           split: list.splits if_splits)

lemma toggle_lines_in_range:
  assumes "i < length lines"
  shows "toggle_lines lines (int i) = Inr (lines[i := toggled_line (lines ! i)])"
proof -
  have get: "array_get lines (int i) = Str (lines ! i)"
    using assms by (simp add: array_get_def)
  have set: "array_set lines (int i) v = lines[i := v]" for v
    using assms by (simp add: array_set_def)
  show ?thesis
    by (auto simp: toggle_lines_def Let_def get set toggled_line_def js_test_toggle_unchecked
          js_test_toggle_checked js_replace_toggle_unchecked js_replace_toggle_checked)
qed

lemma skip_ws_subset: "set (skip_ws s) \<subseteq> set s"
  by (auto simp: skip_ws_def dest: set_dropWhileD)

lemma skip_ws_Cons_subset: "skip_ws s = c # r \<Longrightarrow> set r \<subseteq> set s"
  using skip_ws_subset [of s] by auto

lemma after_marker_unchecked_subset: "after_marker_unchecked l = Some r \<Longrightarrow> set r \<subseteq> set l"
  by (auto simp: after_marker_unchecked_def split: list.splits if_splits
           dest!: skip_ws_Cons_subset)

lemma after_marker_checked_subset: "after_marker_checked l = Some r \<Longrightarrow> set r \<subseteq> set l"
  by (auto simp: after_marker_checked_def split: list.splits if_splits
           dest!: skip_ws_Cons_subset)

lemma toggled_line_no_nl:
  assumes "ch_nl \<notin> set l"
  shows "ch_nl \<notin> set (toggled_line l)"
proof -
  have "ch_nl \<notin> set (takeWhile is_whitespace l)"
    using assms by (auto dest: set_takeWhileD)
  moreover have "ch_nl \<notin> set (skip_ws r)" if "set r \<subseteq> set l" for r
    using that assms skip_ws_subset [of r] by auto
  ultimately show ?thesis
    using assms js_literal_no_nl
    by (auto simp: toggled_line_def split: option.splits
             dest!: after_marker_unchecked_subset after_marker_checked_subset)
qed

lemma handleToggleTask_in_range:
  assumes "i < length (js_split ch_nl (localContent st))"
  shows "\<exists>st'. handleToggleTask st (int i) = Inr st'
           \<and> js_split ch_nl (localContent st')
               = (js_split ch_nl (localContent st))
                   [i := toggled_line (js_split ch_nl (localContent st) ! i)]"
proof -
  let ?ls = "js_split ch_nl (localContent st)"
  let ?ls' = "?ls[i := toggled_line (?ls ! i)]"
  have "ch_nl \<notin> set (?ls ! i)"
    using assms js_split_no_sep [of "?ls ! i" ch_nl "localContent st"] by simp
  then have "ch_nl \<notin> set (toggled_line (?ls ! i))"
    by (rule toggled_line_no_nl)
  then have "\<forall>l \<in> set ?ls'. ch_nl \<notin> set l"
    by (auto dest!: set_update_subset_insert [THEN subsetD] js_split_no_sep)
  moreover have "?ls' \<noteq> []" using assms by auto
  ultimately have "js_split ch_nl (js_join ch_nl ?ls') = ?ls'"
    using js_split_join by blast
  then show ?thesis
    by (simp add: handleToggleTask_def toggle_lines_in_range [OF assms])
qed

section \<open>What the renderer captures\<close>

lemma rx_match_Star_elim:
  "rx_match ic ml (Star a # r) prev s cs = Some res \<Longrightarrow>
     \<exists>w s' prev'. s = w @ s' \<and> (\<forall>c \<in> set w. atom_matches ic a c)
        \<and> rx_match ic ml r prev' s' cs = Some res"
proof (induction s arbitrary: prev)
  case Nil
  then show ?case by auto
next
  case (Cons c s)
  show ?case
  proof (cases "atom_matches ic a c \<and> rx_match ic ml (Star a # r) (Some c) s cs \<noteq> None")
    case True
    with Cons.prems have "rx_match ic ml (Star a # r) (Some c) s cs = Some res"
      by auto
    from Cons.IH [OF this] obtain w s' prev' where
      "s = w @ s'" "\<forall>c \<in> set w. atom_matches ic a c" "rx_match ic ml r prev' s' cs = Some res"
      by blast
    with True have "c # s = (c # w) @ s' \<and> (\<forall>x \<in> set (c # w). atom_matches ic a x)
        \<and> rx_match ic ml r prev' s' cs = Some res"
      by simp
    then show ?thesis by blast
  next
    case False
    with Cons.prems have "rx_match ic ml r prev (c # s) cs = Some res"
      by (cases "rx_match ic ml (Star a # r) (Some c) s cs") (auto split: if_splits)
    then have "c # s = [] @ (c # s) \<and> (\<forall>x \<in> set []. atom_matches ic a x)
        \<and> rx_match ic ml r prev (c # s) cs = Some res"
      by simp
    then show ?thesis by blast
  qed
qed

lemma skip_ws_append:
  "\<forall>c \<in> set w. is_whitespace c \<Longrightarrow> skip_ws (w @ s) = skip_ws s"
  by (induction w) simp_all

lemma rx_match_text_tail:
  assumes "rx_match ic False [Star Space, Open 2, Plus Dot, Close 2, Eol] prev s cs
             = Some (after, cs')"
  shows "\<exists>t. snd cs' = (snd cs)(2 \<mapsto> t) \<and> skip_ws t = skip_ws s"
proof -
  from rx_match_Star_elim [OF assms] obtain w t prev' where
    s: "s = w @ t" and w: "\<forall>c \<in> set w. is_whitespace c"
    and m: "rx_match ic False [Open 2, Plus Dot, Close 2, Eol] prev' t cs = Some (after, cs')"
    by auto
  from m obtain c u where t: "t = c # u"
    and m2: "rx_match ic False [Star Dot, Close 2, Eol] (Some c) u (open_group 2 t cs)
               = Some (after, cs')"
    by (cases t) (auto split: if_splits)
  from rx_match_Star_elim [OF m2] obtain v e prev'' where
    "u = v @ e" and "rx_match ic False [Close 2, Eol] prev'' e (open_group 2 t cs)
                       = Some (after, cs')"
    by auto
  then have "e = []" and "cs' = close_group 2 [] (open_group 2 t cs)"
    by (auto simp: at_eol_def split: if_splits list.splits)
  then have "snd cs' = (snd cs)(2 \<mapsto> t)"
    by (simp add: close_group_def open_group_def)
  moreover have "skip_ws t = skip_ws s"
    using s w by (simp add: skip_ws_append)
  ultimately show ?thesis by blast
qed

lemma rx_match_render_unchecked:
  "rx_match False False (pattern re_render_unchecked) None line no_captures =
     (case after_marker_unchecked line of
        None \<Rightarrow> None
      | Some r \<Rightarrow>
          rx_match False False [Star Space, Open 2, Plus Dot, Close 2, Eol]
            (Some ch_rbracket) r (indent_captured line))"
  by (simp add: re_render_unchecked_def at_bol_def seg_dash seg_lbracket seg_rbracket
        after_marker_unchecked_def indent_captured_def split: list.splits)

lemma rx_match_render_checked:
  "rx_match True False (pattern re_render_checked) None line no_captures =
     (case after_marker_checked line of
        None \<Rightarrow> None
      | Some r \<Rightarrow>
          rx_match True False [Star Space, Open 2, Plus Dot, Close 2, Eol]
            (Some ch_rbracket) r (indent_captured line))"
  by (simp add: re_render_checked_def at_bol_def seg_dash seg_lbracket
        after_marker_checked_def indent_captured_def split: list.splits)

lemma js_match_render_unchecked:
  "js_match re_render_unchecked l =
     (case after_marker_unchecked l of
        None \<Rightarrow> None
      | Some r \<Rightarrow>
          (case rx_match False False [Star Space, Open 2, Plus Dot, Close 2, Eol]
                  (Some ch_rbracket) r (indent_captured l) of
             None \<Rightarrow> None
           | Some (after, cs) \<Rightarrow> Some (snd cs)))"
proof -
  have "rx_exec re_render_unchecked None l =
          (case rx_match (ignoreCase re_render_unchecked) False (pattern re_render_unchecked)
                  None l no_captures of
             None \<Rightarrow> None
           | Some (after, cs) \<Rightarrow> Some (l, after, cs))"
    by (rule rx_exec_start [where r = "tl (pattern re_render_unchecked)"])
       (simp_all add: re_render_unchecked_def)
  moreover have "ignoreCase re_render_unchecked = False"
    by (simp add: re_render_unchecked_def)
  ultimately show ?thesis
    by (simp add: js_match_def rx_match_render_unchecked split: option.splits)
qed

lemma js_match_render_checked:
  "js_match re_render_checked l =
     (case after_marker_checked l of
        None \<Rightarrow> None
      | Some r \<Rightarrow>
          (case rx_match True False [Star Space, Open 2, Plus Dot, Close 2, Eol]
                  (Some ch_rbracket) r (indent_captured l) of
             None \<Rightarrow> None
           | Some (after, cs) \<Rightarrow> Some (snd cs)))"
proof -
  have "rx_exec re_render_checked None l =
          (case rx_match (ignoreCase re_render_checked) False (pattern re_render_checked)
                  None l no_captures of
             None \<Rightarrow> None
           | Some (after, cs) \<Rightarrow> Some (l, after, cs))"
    by (rule rx_exec_start [where r = "tl (pattern re_render_checked)"])
       (simp_all add: re_render_checked_def)
  moreover have "ignoreCase re_render_checked = True"
    by (simp add: re_render_checked_def)
  ultimately show ?thesis
    by (simp add: js_match_def rx_match_render_checked split: option.splits)
qed

lemma js_match_render_unchecked_groups:
  assumes "js_match re_render_unchecked l = Some g"
  shows "\<exists>r t. after_marker_unchecked l = Some r \<and> g 1 = Some (takeWhile is_whitespace l)
           \<and> g 2 = Some t \<and> skip_ws t = skip_ws r"
proof -
  from assms obtain r after cs where r: "after_marker_unchecked l = Some r"
    and m: "rx_match False False [Star Space, Open 2, Plus Dot, Close 2, Eol]
              (Some ch_rbracket) r (indent_captured l) = Some (after, cs)"
    and g: "g = snd cs"
    by (auto simp: js_match_render_unchecked split: option.splits)
  from rx_match_text_tail [OF m] obtain t where
    "snd cs = (snd (indent_captured l))(2 \<mapsto> t)" "skip_ws t = skip_ws r"
    by blast
  with r g show ?thesis by simp
qed

lemma js_match_render_checked_groups:
  assumes "js_match re_render_checked l = Some g"
  shows "\<exists>r t. after_marker_checked l = Some r \<and> g 1 = Some (takeWhile is_whitespace l)
           \<and> g 2 = Some t \<and> skip_ws t = skip_ws r"
proof -
  from assms obtain r after cs where r: "after_marker_checked l = Some r"
    and m: "rx_match True False [Star Space, Open 2, Plus Dot, Close 2, Eol]
              (Some ch_rbracket) r (indent_captured l) = Some (after, cs)"
    and g: "g = snd cs"
    by (auto simp: js_match_render_checked split: option.splits)
  from rx_match_text_tail [OF m] obtain t where
    "snd cs = (snd (indent_captured l))(2 \<mapsto> t)" "skip_ws t = skip_ws r"
    by blast
  with r g show ?thesis by simp
qed

lemma toggled_line_unchecked_task:
  assumes "render_line l = UncheckedTask (Some indent) (Some text)"
  shows "toggled_line l = indent @ js ''- [x] '' @ dropWhile is_whitespace text"
proof -
  from assms obtain g where "js_match re_render_unchecked l = Some g"
    "g 1 = Some indent" "g 2 = Some text"
    by (auto simp: render_line_def split: option.splits)
  with js_match_render_unchecked_groups [of l g] obtain r where
    "after_marker_unchecked l = Some r" "indent = takeWhile is_whitespace l"
    "skip_ws text = skip_ws r"
    by auto
  then show ?thesis
    by (simp add: toggled_line_def skip_ws_def)
qed

lemma toggled_line_checked_task:
  assumes "render_line l = CheckedTask (Some indent) (Some text)"
  shows "toggled_line l = indent @ js ''- [ ] '' @ dropWhile is_whitespace text"
proof -
  from assms obtain g where "js_match re_render_checked l = Some g"
    "g 1 = Some indent" "g 2 = Some text"
    by (auto simp: render_line_def split: option.splits)
  with js_match_render_checked_groups [of l g] obtain r where
    r: "after_marker_checked l = Some r" "indent = takeWhile is_whitespace l"
    "skip_ws text = skip_ws r"
    by auto
  from r(1) have "after_marker_unchecked l = None"
    by (rule checked_not_unchecked)
  with r show ?thesis
    by (simp add: toggled_line_def skip_ws_def)
qed

section \<open>Toggling a task line\<close>

lemma js_marker_checked:
  "js ''- [x] '' = [ch_dash, ch_space, ch_lbracket, ch_x, ch_rbracket, ch_space]"
  by (simp add: js_def ch_dash_def ch_space_def ch_lbracket_def ch_x_def ch_rbracket_def)

lemma js_marker_unchecked:
  "js ''- [ ] '' = [ch_dash, ch_space, ch_lbracket, ch_space, ch_rbracket, ch_space]"
  by (simp add: js_def ch_dash_def ch_space_def ch_lbracket_def ch_rbracket_def)

lemma space_is_whitespace [simp]: "is_whitespace ch_space"
  by (simp add: is_whitespace_def ch_space_def)

lemma takeWhile_ws_append:
  "\<forall>c \<in> set w. is_whitespace c \<Longrightarrow> \<not> is_whitespace c \<Longrightarrow>
     takeWhile is_whitespace (w @ c # s) = w"
  by (induction w) simp_all

lemma toggled_line_written_checked:
  assumes "\<forall>c \<in> set w. is_whitespace c"
  shows "toggled_line (w @ js ''- [x] '' @ s) = w @ js ''- [ ] '' @ skip_ws s"
proof -
  let ?l = "w @ js ''- [x] '' @ s"
  have sk: "skip_ws ?l = js ''- [x] '' @ s"
    using assms by (simp add: skip_ws_append js_marker_checked)
  then have c: "after_marker_checked ?l = Some (ch_space # s)"
    by (simp add: after_marker_checked_def js_marker_checked)
  then have u: "after_marker_unchecked ?l = None"
    by (rule checked_not_unchecked)
  have "takeWhile is_whitespace ?l = w"
    using assms by (simp add: js_marker_checked takeWhile_ws_append)
  with c u show ?thesis
    by (simp add: toggled_line_def)
qed

lemma render_unchecked_indent:
  assumes "render_line l = UncheckedTask (Some indent) (Some text)"
  shows "\<forall>c \<in> set indent. is_whitespace c"
proof -
  from assms obtain g where "js_match re_render_unchecked l = Some g" "g 1 = Some indent"
    by (auto simp: render_line_def split: option.splits)
  with js_match_render_unchecked_groups [of l g] have "indent = takeWhile is_whitespace l"
    by auto
  then show ?thesis by (auto dest: set_takeWhileD)
qed

text \<open>
  C1, as the code has it: toggling a task line keeps the indentation and writes the marker
  in its normal form, a dash, one space, the flipped bracket and one space, followed by the
  text of the task without its leading whitespace. Whatever whitespace stood between the
  dash, the bracket and the text is replaced by single spaces.
\<close>

theorem toggle_task_line:
  assumes "i < length (js_split ch_nl (localContent st))"
  shows "\<exists>st'. handleToggleTask st (int i) = Inr st'
     \<and> (render_line (js_split ch_nl (localContent st) ! i)
          = UncheckedTask (Some indent) (Some text) \<longrightarrow>
        js_split ch_nl (localContent st') ! i
          = indent @ js ''- [x] '' @ dropWhile is_whitespace text)
     \<and> (render_line (js_split ch_nl (localContent st) ! i)
          = CheckedTask (Some indent) (Some text) \<longrightarrow>
        js_split ch_nl (localContent st') ! i
          = indent @ js ''- [ ] '' @ dropWhile is_whitespace text)"
proof -
  from handleToggleTask_in_range [OF assms] obtain st' where
    st': "handleToggleTask st (int i) = Inr st'"
    and ls: "js_split ch_nl (localContent st')
               = (js_split ch_nl (localContent st))
                   [i := toggled_line (js_split ch_nl (localContent st) ! i)]"
    by blast
  from ls assms have "js_split ch_nl (localContent st') ! i
      = toggled_line (js_split ch_nl (localContent st) ! i)"
    by simp
  with st' show ?thesis
    by (auto simp: toggled_line_unchecked_task toggled_line_checked_task)
qed

theorem toggle_task_line_witness:
  "(\<exists>st'. handleToggleTask \<lparr>content = [], localContent = js ''  -[ ]  A\<newline>- [X] B'',
                              mode = View, contentChanges = []\<rparr> 0 = Inr st'
      \<and> js_split ch_nl (localContent st') ! 0 = js ''  - [x] A'')
   \<and> (\<exists>st'. handleToggleTask \<lparr>content = [], localContent = js ''  -[ ]  A\<newline>- [X] B'',
                              mode = View, contentChanges = []\<rparr> 1 = Inr st'
      \<and> js_split ch_nl (localContent st') ! 1 = js ''- [ ] B'')"
proof -
  let ?st = "\<lparr>content = [], localContent = js ''  -[ ]  A\<newline>- [X] B'', mode = View,
              contentChanges = []\<rparr>"
  have sp: "js_split ch_nl (localContent ?st) = [js ''  -[ ]  A'', js ''- [X] B'']"
    by (simp add: js_def ch_nl_def)
  have r0: "render_line (js ''  -[ ]  A'') = UncheckedTask (Some (js ''  '')) (Some (js ''A''))"
    by code_simp
  have r1: "render_line (js ''- [X] B'') = CheckedTask (Some (js '''')) (Some (js ''B''))"
    by code_simp
  have d: "dropWhile is_whitespace (js ''A'') = js ''A''"
    "dropWhile is_whitespace (js ''B'') = js ''B''"
    by (simp_all add: js_def is_whitespace_def is_line_terminator_def)
  have "\<exists>st'. handleToggleTask ?st 0 = Inr st'
          \<and> js_split ch_nl (localContent st') ! 0 = js ''  - [x] A''"
    using toggle_task_line [of 0 ?st "js ''  ''" "js ''A''"] r0 d
    unfolding sp by (simp add: js_def)
  moreover have "\<exists>st'. handleToggleTask ?st 1 = Inr st'
          \<and> js_split ch_nl (localContent st') ! 1 = js ''- [ ] B''"
    using toggle_task_line [of 1 ?st "js ''''" "js ''B''"] r1 d
    unfolding sp by (simp add: js_def)
  ultimately show ?thesis by blast
qed

text \<open>
  C1 as stated fails: the line \<^verbatim>\<open>-[ ]a\<close> is an unchecked task with empty indentation and
  text \<^verbatim>\<open>a\<close>; flipping only its bracket would give \<^verbatim>\<open>-[x]a\<close>, the handler writes
  \<^verbatim>\<open>- [x] a\<close>.
\<close>

theorem toggle_task_line_counterexample:
  "render_line (js ''-[ ]a'') = UncheckedTask (Some []) (Some (js ''a''))
   \<and> handleToggleTask \<lparr>content = js ''-[ ]a'', localContent = js ''-[ ]a'', mode = View,
                        contentChanges = []\<rparr> 0
       = Inr \<lparr>content = js ''-[ ]a'', localContent = js ''- [x] a'', mode = View,
              contentChanges = [js ''- [x] a'']\<rparr>
   \<and> js ''- [x] a'' \<noteq> js ''-[x]a''"
  by code_simp

section \<open>Toggling twice\<close>

lemma skip_ws_idem: "skip_ws (skip_ws s) = skip_ws s"
  by (induction s) simp_all

text \<open>
  C2, as the code has it: toggling an unchecked task line twice gives the line in normal
  form, its indentation, \<^verbatim>\<open>- [ ] \<close> and its text without leading whitespace; the content
  is the original one when the line was written that way.
\<close>

theorem toggle_twice:
  assumes "i < length (js_split ch_nl (localContent st))"
    and "render_line (js_split ch_nl (localContent st) ! i)
           = UncheckedTask (Some indent) (Some text)"
  shows "\<exists>st1 st2. handleToggleTask st (int i) = Inr st1
     \<and> handleToggleTask st1 (int i) = Inr st2
     \<and> js_split ch_nl (localContent st2)
         = (js_split ch_nl (localContent st))
             [i := indent @ js ''- [ ] '' @ dropWhile is_whitespace text]
     \<and> (js_split ch_nl (localContent st) ! i
           = indent @ js ''- [ ] '' @ dropWhile is_whitespace text \<longrightarrow>
         localContent st2 = localContent st)"
proof -
  let ?ls = "js_split ch_nl (localContent st)"
  let ?r = "dropWhile is_whitespace text"
  from handleToggleTask_in_range [OF assms(1)] obtain st1 where
    st1: "handleToggleTask st (int i) = Inr st1"
    and ls1: "js_split ch_nl (localContent st1) = ?ls[i := toggled_line (?ls ! i)]"
    by blast
  have t1: "toggled_line (?ls ! i) = indent @ js ''- [x] '' @ ?r"
    using assms(2) by (rule toggled_line_unchecked_task)
  have i1: "i < length (js_split ch_nl (localContent st1))"
    using assms(1) ls1 by simp
  from handleToggleTask_in_range [OF i1] obtain st2 where
    st2: "handleToggleTask st1 (int i) = Inr st2"
    and ls2: "js_split ch_nl (localContent st2)
                = (js_split ch_nl (localContent st1))
                    [i := toggled_line (js_split ch_nl (localContent st1) ! i)]"
    by blast
  have "toggled_line (indent @ js ''- [x] '' @ ?r) = indent @ js ''- [ ] '' @ skip_ws ?r"
    using render_unchecked_indent [OF assms(2)] by (rule toggled_line_written_checked)
  moreover have "skip_ws ?r = ?r"
    using skip_ws_idem [of "text"] by (simp add: skip_ws_def)
  ultimately have t2: "toggled_line (indent @ js ''- [x] '' @ ?r) = indent @ js ''- [ ] '' @ ?r"
    by simp
  have res: "js_split ch_nl (localContent st2) = ?ls[i := indent @ js ''- [ ] '' @ ?r]"
    using ls2 ls1 t1 t2 assms(1) by simp
  have "localContent st2 = localContent st" if "?ls ! i = indent @ js ''- [ ] '' @ ?r"
  proof -
    from that res have "js_split ch_nl (localContent st2) = ?ls"
      by (metis list_update_id)
    then have "js_join ch_nl (js_split ch_nl (localContent st2)) = js_join ch_nl ?ls"
      by simp
    then show ?thesis by (simp add: js_join_split)
  qed
  with st1 st2 res show ?thesis by blast
qed

theorem toggle_twice_witness:
  "\<exists>st1 st2. handleToggleTask \<lparr>content = [], localContent = js ''- [ ] A\<newline>- [x] B'',
                                 mode = View, contentChanges = []\<rparr> 0 = Inr st1
     \<and> handleToggleTask st1 0 = Inr st2
     \<and> localContent st2 = js ''- [ ] A\<newline>- [x] B''"
proof -
  let ?st = "\<lparr>content = [], localContent = js ''- [ ] A\<newline>- [x] B'', mode = View,
              contentChanges = []\<rparr>"
  have sp: "js_split ch_nl (js ''- [ ] A\<newline>- [x] B'') = [js ''- [ ] A'', js ''- [x] B'']"
    by (simp add: js_def ch_nl_def)
  have r0: "render_line (js ''- [ ] A'') = UncheckedTask (Some []) (Some (js ''A''))"
    by code_simp
  have d: "dropWhile is_whitespace (js ''A'') = js ''A''"
    by (simp add: js_def is_whitespace_def is_line_terminator_def)
  have p1: "0 < length (js_split ch_nl (localContent ?st))"
    by (simp add: sp)
  have p2: "render_line (js_split ch_nl (localContent ?st) ! 0)
              = UncheckedTask (Some []) (Some (js ''A''))"
    by (simp add: sp r0)
  from toggle_twice [OF p1 p2] obtain st1 st2 where
    h: "handleToggleTask ?st (int 0) = Inr st1" "handleToggleTask st1 (int 0) = Inr st2"
      "js_split ch_nl (localContent ?st) ! 0
         = [] @ js ''- [ ] '' @ dropWhile is_whitespace (js ''A'') \<longrightarrow>
       localContent st2 = localContent ?st"
    by blast
  have "js_split ch_nl (localContent ?st) ! 0
          = [] @ js ''- [ ] '' @ dropWhile is_whitespace (js ''A'')"
    by (simp add: sp d) (simp add: js_def)
  with h(3) have "localContent st2 = js ''- [ ] A\<newline>- [x] B''"
    by simp
  with h(1,2) show ?thesis by auto
qed

text \<open>
  C2 as stated fails: \<^verbatim>\<open>- [ ]  a\<close>, with two spaces after the bracket, comes back from two
  toggles as \<^verbatim>\<open>- [ ] a\<close>.
\<close>

theorem toggle_twice_counterexample:
  "render_line (js ''- [ ]  a'') = UncheckedTask (Some []) (Some (js ''a''))
   \<and> handleToggleTask \<lparr>content = [], localContent = js ''- [ ]  a'', mode = View,
                        contentChanges = []\<rparr> 0
       = Inr \<lparr>content = [], localContent = js ''- [x] a'', mode = View,
              contentChanges = [js ''- [x] a'']\<rparr>
   \<and> handleToggleTask \<lparr>content = [], localContent = js ''- [x] a'', mode = View,
                        contentChanges = [js ''- [x] a'']\<rparr> 0
       = Inr \<lparr>content = [], localContent = js ''- [ ] a'', mode = View,
              contentChanges = [js ''- [x] a'', js ''- [ ] a'']\<rparr>
   \<and> js ''- [ ] a'' \<noteq> js ''- [ ]  a''"
  by code_simp

section \<open>Toggling a line without a marker\<close>

text \<open>
  C3, as the code has it: the handler is a no-op on a line that matches neither of the two
  patterns it tests, \<^verbatim>\<open>/^(\s*)-\s*\[\s*\]\s*/\<close> and \<^verbatim>\<open>/^(\s*)-\s*\[x\]\s*/i\<close>. The content
  stays as it is, and is still reported through \<^verbatim>\<open>onContentChange\<close>.
\<close>

theorem toggle_without_marker:
  assumes "i < length (js_split ch_nl (localContent st))"
    and "\<not> js_test re_toggle_unchecked (js_split ch_nl (localContent st) ! i)"
    and "\<not> js_test re_toggle_checked (js_split ch_nl (localContent st) ! i)"
  shows "handleToggleTask st (int i)
           = Inr (st\<lparr>contentChanges := contentChanges st @ [localContent st]\<rparr>)"
proof -
  let ?ls = "js_split ch_nl (localContent st)"
  from assms(2,3) have "toggled_line (?ls ! i) = ?ls ! i"
    by (simp add: toggled_line_def js_test_toggle_unchecked js_test_toggle_checked)
  then have "toggle_lines ?ls (int i) = Inr ?ls"
    using toggle_lines_in_range [OF assms(1)] by simp
  then show ?thesis
    by (simp add: handleToggleTask_def js_join_split)
qed

theorem toggle_without_marker_witness:
  "handleToggleTask \<lparr>content = [], localContent = js ''# Title\<newline>- [ ] A'', mode = View,
                      contentChanges = []\<rparr> 0
     = Inr \<lparr>content = [], localContent = js ''# Title\<newline>- [ ] A'', mode = View,
            contentChanges = [js ''# Title\<newline>- [ ] A'']\<rparr>"
proof -
  let ?st = "\<lparr>content = [], localContent = js ''# Title\<newline>- [ ] A'', mode = View,
              contentChanges = []\<rparr>"
  have sp: "js_split ch_nl (localContent ?st) = [js ''# Title'', js ''- [ ] A'']"
    by (simp add: js_def ch_nl_def)
  have t: "\<not> js_test re_toggle_unchecked (js ''# Title'')"
    "\<not> js_test re_toggle_checked (js ''# Title'')"
    by code_simp+
  show ?thesis
    using toggle_without_marker [of 0 ?st] t
    unfolding sp by simp
qed

text \<open>
  C3 as stated fails: the line \<^verbatim>\<open>- [ ]\<close>, a marker with no text, is not a task line (the
  renderer draws no checkbox for it), yet the handler rewrites it.
\<close>

theorem toggle_without_marker_counterexample:
  "render_line (js ''- [ ]'') = NoTask
   \<and> handleToggleTask \<lparr>content = [], localContent = js ''- [ ]'', mode = View,
                        contentChanges = []\<rparr> 0
       = Inr \<lparr>content = [], localContent = js ''- [x] '', mode = View,
              contentChanges = [js ''- [x] '']\<rparr>
   \<and> js ''- [x] '' \<noteq> js ''- [ ]''"
  by code_simp

section \<open>Scanning a text for all matches\<close>

declare rx_match_all.simps [simp del]

lemma rx_match_suffix:
  "rx_match ic ml p prev rest cs = Some (after, cs') \<Longrightarrow> \<exists>m. rest = m @ after"
proof (induction ic ml p prev rest cs rule: rx_match.induct)
  case (5 ic ml a r prev c rest cs)
  then obtain m where "rest = m @ after" by (auto split: if_splits)
  then have "c # rest = (c # m) @ after" by simp
  then show ?case by blast
next
  case (7 ic ml a r prev c rest cs)
  show ?case
  proof (cases "atom_matches ic a c \<and> rx_match ic ml (Star a # r) (Some c) rest cs \<noteq> None")
    case True
    with 7 obtain m where "rest = m @ after" by auto
    then have "c # rest = (c # m) @ after" by simp
    then show ?thesis by blast
  next
    case False
    with 7 show ?thesis
      by (cases "rx_match ic ml (Star a # r) (Some c) rest cs") (auto split: if_splits)
  qed
next
  case (9 ic ml a r prev c rest cs)
  then obtain m where "rest = m @ after" by (auto split: if_splits)
  then have "c # rest = (c # m) @ after" by simp
  then show ?case by blast
qed (auto split: if_splits)

lemma rx_exec_unfold:
  "rx_exec re prev [] =
     (case attempt re prev [] of Some (after, cs) \<Rightarrow> Some ([], after, cs) | None \<Rightarrow> None)"
  "rx_exec re prev (c # s) =
     (case attempt re prev (c # s) of
        Some (after, cs) \<Rightarrow> Some (c # s, after, cs)
      | None \<Rightarrow> rx_exec re (Some c) s)"
  by (simp_all add: attempt_def)

declare rx_exec.simps [simp del]

lemma rx_exec_attempt_Some:
  "attempt re prev s = Some (after, cs) \<Longrightarrow> rx_exec re prev s = Some (s, after, cs)"
  by (cases s) (simp_all add: rx_exec_unfold)

lemma rx_exec_attempt_None:
  "attempt re prev (c # s) = None \<Longrightarrow> rx_exec re prev (c # s) = rx_exec re (Some c) s"
  "attempt re prev [] = None \<Longrightarrow> rx_exec re prev [] = None"
  by (simp_all add: rx_exec_unfold)

lemma rx_exec_inside_line:
  assumes "anchored re"
  shows "\<not> is_line_terminator c0 \<Longrightarrow> \<forall>c \<in> set u. \<not> is_line_terminator c \<Longrightarrow>
           rx_exec re (Some c0) (u @ rest) = rx_exec re (Some (last (c0 # u))) rest"
proof (induction u arbitrary: c0)
  case Nil
  show ?case by simp
next
  case (Cons x u)
  from assms Cons.prems(1) have "attempt re (Some c0) (x # u @ rest) = None"
    by (simp add: anchored_def at_bol_def)
  then have "rx_exec re (Some c0) ((x # u) @ rest) = rx_exec re (Some x) (u @ rest)"
    by (simp add: rx_exec_attempt_None)
  also have "\<dots> = rx_exec re (Some (last (x # u))) rest"
    using Cons.IH [of x] Cons.prems(2) by simp
  finally show ?case by simp
qed

lemma rx_exec_line_end:
  assumes "anchored re" "\<not> is_line_terminator c0"
  shows "rx_exec re (Some c0) (ch_nl # R) = rx_exec re (Some ch_nl) R"
    and "rx_exec re (Some c0) [] = None"
proof -
  from assms have "attempt re (Some c0) s = None" for s
    by (simp add: anchored_def at_bol_def)
  then show "rx_exec re (Some c0) (ch_nl # R) = rx_exec re (Some ch_nl) R"
    and "rx_exec re (Some c0) [] = None"
    by (simp_all add: rx_exec_attempt_None)
qed

lemma rx_exec_failed_line:
  assumes "anchored re" "\<forall>c \<in> set l. \<not> is_line_terminator c"
    and "attempt re prev (l @ ch_nl # R) = None"
  shows "rx_exec re prev (l @ ch_nl # R) = rx_exec re (Some ch_nl) R"
proof (cases l)
  case Nil
  with assms(3) show ?thesis by (simp add: rx_exec_attempt_None)
next
  case (Cons c l')
  with assms(3) have "rx_exec re prev (l @ ch_nl # R) = rx_exec re (Some c) (l' @ ch_nl # R)"
    by (simp add: rx_exec_attempt_None)
  also have "\<dots> = rx_exec re (Some (last (c # l'))) (ch_nl # R)"
    using assms(2) Cons by (intro rx_exec_inside_line [OF assms(1)]) simp_all
  also have "\<dots> = rx_exec re (Some ch_nl) R"
    using assms(2) Cons by (intro rx_exec_line_end [OF assms(1)]) simp
  finally show ?thesis .
qed

lemma rx_exec_failed_last_line:
  assumes "anchored re" "\<forall>c \<in> set l. \<not> is_line_terminator c"
    and "attempt re prev l = None"
  shows "rx_exec re prev l = None"
proof (cases l)
  case Nil
  with assms(3) show ?thesis by (simp add: rx_exec_attempt_None)
next
  case (Cons c l')
  with assms(3) have "rx_exec re prev l = rx_exec re (Some c) (l' @ [])"
    by (simp add: rx_exec_attempt_None)
  also have "\<dots> = rx_exec re (Some (last (c # l'))) []"
    using assms(2) Cons by (intro rx_exec_inside_line [OF assms(1)]) simp_all
  also have "\<dots> = None"
    using assms(2) Cons by (intro rx_exec_line_end [OF assms(1)]) simp
  finally show ?thesis .
qed

lemma rx_match_all_cong:
  "rx_exec re prev s = rx_exec re prev' s' \<Longrightarrow> rx_match_all re prev s = rx_match_all re prev' s'"
  by (simp add: rx_match_all.simps [of re prev s] rx_match_all.simps [of re prev' s'])

lemma rx_match_all_None:
  "rx_exec re prev s = None \<Longrightarrow> rx_match_all re prev s = []"
  by (simp add: rx_match_all.simps [of re prev s])

lemma rx_match_all_Some:
  assumes "rx_exec re prev s = Some (m @ after, after, cs)" "m \<noteq> []"
  shows "rx_match_all re prev s = m # rx_match_all re (Some (last m)) after"
  using assms by (simp add: rx_match_all.simps [of re prev s] matched_text_def)

section \<open>Counting line by line\<close>

lemma attempt_suffix:
  "attempt re prev s = Some (after, cs) \<Longrightarrow> \<exists>m. s = m @ after"
  unfolding attempt_def by (rule rx_match_suffix)

lemma at_bol_nl [simp]: "at_bol True (Some ch_nl)"
  by (simp add: at_bol_def)

lemma count_last_line:
  assumes cl: "counts_lines re P" and pl: "plain_line l" and bol: "at_bol True prev"
  shows "length (rx_match_all re prev l) = length (filter P [l])"
proof -
  from cl have anc: "anchored re" by (simp add: counts_lines_def)
  from pl have lt: "\<forall>c \<in> set l. \<not> is_line_terminator c" by (simp add: plain_line_def)
  show ?thesis
  proof (cases "skip_ws l = []")
    case True
    with cl have "attempt re prev l = None" "\<not> P l" by (simp_all add: counts_lines_def)
    then show ?thesis
      using rx_exec_failed_last_line [OF anc lt] by (simp add: rx_match_all_None)
  next
    case False
    then have ne: "l \<noteq> []" by auto
    from cl bol pl False
    have att: "attempt re prev (l @ []) = (if P l then Some ([], no_captures) else None)"
      unfolding counts_lines_def by blast
    show ?thesis
    proof (cases "P l")
      case True
      with att have "rx_exec re prev l = Some (l @ [], [], no_captures)"
        by (simp add: rx_exec_attempt_Some)
      then have "rx_match_all re prev l = l # rx_match_all re (Some (last l)) []"
        using ne by (rule rx_match_all_Some)
      moreover have "rx_exec re (Some (last l)) [] = None"
        using lt ne by (intro rx_exec_line_end [OF anc]) simp
      ultimately show ?thesis using True by (simp add: rx_match_all_None)
    next
      case False
      with att have "attempt re prev l = None" by simp
      then show ?thesis
        using False rx_exec_failed_last_line [OF anc lt] by (simp add: rx_match_all_None)
    qed
  qed
qed

lemma count_first_line:
  assumes cl: "counts_lines re P" and pl: "plain_line l" and bol: "at_bol True prev"
  shows "length (rx_match_all re prev (l @ ch_nl # R))
           = length (filter P [l]) + length (rx_match_all re (Some ch_nl) R)"
proof -
  from cl have anc: "anchored re" by (simp add: counts_lines_def)
  from pl have lt: "\<forall>c \<in> set l. \<not> is_line_terminator c" by (simp add: plain_line_def)
  show ?thesis
  proof (cases "skip_ws l = []")
    case True
    with cl bol have att: "attempt re prev (l @ ch_nl # R) = attempt re (Some ch_nl) R"
      and np: "\<not> P l"
      by (simp_all add: counts_lines_def)
    show ?thesis
    proof (cases "attempt re (Some ch_nl) R")
      case None
      with att have "rx_exec re prev (l @ ch_nl # R) = rx_exec re (Some ch_nl) R"
        using rx_exec_failed_line [OF anc lt] by simp
      then have "rx_match_all re prev (l @ ch_nl # R) = rx_match_all re (Some ch_nl) R"
        by (rule rx_match_all_cong)
      then show ?thesis using np by simp
    next
      case (Some res)
      obtain after cs where res: "res = (after, cs)" by (cases res)
      from Some res attempt_suffix obtain m where m: "R = m @ after" by blast
      from cl Some res have "after \<noteq> R" unfolding counts_lines_def by blast
      with m have ne: "m \<noteq> []" by auto
      have "rx_exec re (Some ch_nl) R = Some (m @ after, after, cs)"
        using Some res m by (simp add: rx_exec_attempt_Some)
      then have one: "rx_match_all re (Some ch_nl) R = m # rx_match_all re (Some (last m)) after"
        using ne by (rule rx_match_all_Some)
      have "rx_exec re prev (l @ ch_nl # R) = Some ((l @ ch_nl # m) @ after, after, cs)"
        using att Some res m by (simp add: rx_exec_attempt_Some)
      then have "rx_match_all re prev (l @ ch_nl # R)
          = (l @ ch_nl # m) # rx_match_all re (Some (last (l @ ch_nl # m))) after"
        by (rule rx_match_all_Some) simp
      with one ne np show ?thesis by simp
    qed
  next
    case False
    then have ne: "l \<noteq> []" by auto
    from cl bol pl False
    have att: "attempt re prev (l @ ch_nl # R)
                 = (if P l then Some (ch_nl # R, no_captures) else None)"
      unfolding counts_lines_def by blast
    show ?thesis
    proof (cases "P l")
      case True
      with att have "rx_exec re prev (l @ ch_nl # R) = Some (l @ ch_nl # R, ch_nl # R, no_captures)"
        by (simp add: rx_exec_attempt_Some)
      then have "rx_match_all re prev (l @ ch_nl # R)
          = l # rx_match_all re (Some (last l)) (ch_nl # R)"
        using ne by (rule rx_match_all_Some)
      moreover have "rx_exec re (Some (last l)) (ch_nl # R) = rx_exec re (Some ch_nl) R"
        using lt ne by (intro rx_exec_line_end [OF anc]) simp
      then have "rx_match_all re (Some (last l)) (ch_nl # R) = rx_match_all re (Some ch_nl) R"
        by (rule rx_match_all_cong)
      ultimately show ?thesis using True by simp
    next
      case False
      with att have "rx_exec re prev (l @ ch_nl # R) = rx_exec re (Some ch_nl) R"
        using rx_exec_failed_line [OF anc lt] by simp
      then have "rx_match_all re prev (l @ ch_nl # R) = rx_match_all re (Some ch_nl) R"
        by (rule rx_match_all_cong)
      then show ?thesis using False by simp
    qed
  qed
qed

lemma count_by_lines:
  assumes "counts_lines re P"
  shows "ls \<noteq> [] \<Longrightarrow> \<forall>l \<in> set ls. plain_line l \<Longrightarrow> at_bol True prev \<Longrightarrow>
           length (rx_match_all re prev (js_join ch_nl ls)) = length (filter P ls)"
proof (induction ls arbitrary: prev)
  case Nil
  then show ?case by simp
next
  case (Cons l ls)
  show ?case
  proof (cases ls)
    case Nil
    with Cons.prems show ?thesis
      using count_last_line [OF assms, of l prev] by simp
  next
    case (Cons l2 ls')
    then have "js_join ch_nl (l # ls) = l @ ch_nl # js_join ch_nl ls" by simp
    moreover have "length (rx_match_all re (Some ch_nl) (js_join ch_nl ls)) = length (filter P ls)"
      using Cons.IH [of "Some ch_nl"] Cons Cons.prems by simp
    ultimately show ?thesis
      using count_first_line [OF assms, of l prev "js_join ch_nl ls"] Cons.prems by simp
  qed
qed

section \<open>The counting patterns on a line\<close>

lemma rx_match_dots_eol:
  "rx_match ic True [Star Dot, Eol] prev s cs
     = Some (dropWhile (\<lambda>x. \<not> is_line_terminator x) s, cs)"
  by (induction s arbitrary: prev) (simp_all add: at_eol_def)

lemma rx_match_text_eol:
  "skip_ws s = c # s' \<Longrightarrow>
     rx_match ic True [Star Space, Plus Dot, Eol] prev s cs
       = Some (dropWhile (\<lambda>x. \<not> is_line_terminator x) (c # s'), cs)"
proof (induction s arbitrary: prev)
  case Nil
  then show ?case by simp
next
  case (Cons x xs)
  show ?case
  proof (cases "is_whitespace x")
    case True
    with Cons.prems have "skip_ws xs = c # s'" by simp
    from Cons.IH [OF this] True show ?thesis by simp
  next
    case False
    with Cons.prems have eq: "x = c" "xs = s'" by simp_all
    from False have "\<not> is_line_terminator x"
      using line_terminator_is_whitespace by blast
    with False eq show ?thesis
      by (simp add: rx_match_dots_eol)
  qed
qed

lemma seg_dash_open:
  "rx_match ic ml (Star Space # One (PChar ch_dash) # r) prev s cs =
     (case skip_ws s of
        [] \<Rightarrow> None
      | c # s' \<Rightarrow> if c = ch_dash then rx_match ic ml r (Some c) s' cs else None)"
  by (subst rx_match_ws_char) (auto split: list.splits)

lemma attempt_count_unchecked:
  "attempt re_count_unchecked prev s =
     (if at_bol True prev
      then (case after_marker_unchecked s of
              None \<Rightarrow> None
            | Some r \<Rightarrow>
                rx_match False True [Star Space, Plus Dot, Eol] (Some ch_rbracket) r no_captures)
      else None)"
  by (simp add: attempt_def re_count_unchecked_def seg_dash_open seg_lbracket seg_rbracket
        after_marker_unchecked_def split: list.splits)

lemma attempt_count_checked:
  "attempt re_count_checked prev s =
     (if at_bol True prev
      then (case after_marker_checked s of
              None \<Rightarrow> None
            | Some r \<Rightarrow>
                rx_match True True [Star Space, Plus Dot, Eol] (Some ch_rbracket) r no_captures)
      else None)"
  by (simp add: attempt_def re_count_checked_def seg_dash_open seg_lbracket
        after_marker_checked_def split: list.splits)

lemma length_skip_ws: "length (skip_ws s) \<le> length s"
  by (simp add: skip_ws_def length_dropWhile_le)

lemma skip_ws_Cons_length: "skip_ws s = c # r \<Longrightarrow> length r < length s"
  using length_skip_ws [of s] by simp

lemma after_marker_unchecked_length:
  "after_marker_unchecked s = Some r \<Longrightarrow> length r < length s"
  by (auto simp: after_marker_unchecked_def split: list.splits if_splits
           dest!: skip_ws_Cons_length)

lemma after_marker_checked_length:
  "after_marker_checked s = Some r \<Longrightarrow> length r < length s"
  by (auto simp: after_marker_checked_def split: list.splits if_splits
           dest!: skip_ws_Cons_length)

lemma after_marker_unchecked_cong:
  "skip_ws a = skip_ws b \<Longrightarrow> after_marker_unchecked a = after_marker_unchecked b"
  by (simp add: after_marker_unchecked_def)

lemma after_marker_checked_cong:
  "skip_ws a = skip_ws b \<Longrightarrow> after_marker_checked a = after_marker_checked b"
  by (simp add: after_marker_checked_def)

lemma skip_ws_blank_line: "skip_ws l = [] \<Longrightarrow> skip_ws (l @ ch_nl # R) = skip_ws R"
  by (induction l) (simp_all split: if_splits)

lemma skip_ws_append_text: "skip_ws a = c # r \<Longrightarrow> skip_ws (a @ b) = c # r @ b"
  by (induction a) (simp_all split: if_splits)

lemma nl_not_marker [simp]:
  "ch_nl \<noteq> ch_dash" "ch_nl \<noteq> ch_lbracket" "ch_nl \<noteq> ch_rbracket" "ch_nl \<noteq> ch_x" "ch_nl \<noteq> ch_X"
  by (simp_all add: ch_nl_def ch_dash_def ch_lbracket_def ch_rbracket_def ch_x_def ch_X_def)

lemma after_marker_unchecked_append:
  assumes "\<not> bare_marker l" "skip_ws l \<noteq> []"
  shows "after_marker_unchecked (l @ tail) = map_option (\<lambda>r. r @ tail) (after_marker_unchecked l)"
  using assms
  by (auto simp: after_marker_unchecked_def bare_marker_def skip_ws_append_text
           split: list.splits if_splits)

lemma after_marker_checked_append:
  assumes "\<not> bare_marker l" "skip_ws l \<noteq> []" "tail = [] \<or> (\<exists>R. tail = ch_nl # R)"
  shows "after_marker_checked (l @ tail) = map_option (\<lambda>r. r @ tail) (after_marker_checked l)"
  using assms
  by (auto simp: after_marker_checked_def bare_marker_def skip_ws_append_text
           split: list.splits if_splits)

lemma bare_marker_unchecked:
  "\<not> bare_marker l \<Longrightarrow> after_marker_unchecked l = Some r \<Longrightarrow> skip_ws r \<noteq> []"
  by (auto simp: bare_marker_def after_marker_unchecked_def split: list.splits if_splits)

lemma bare_marker_checked:
  "\<not> bare_marker l \<Longrightarrow> after_marker_checked l = Some r \<Longrightarrow> skip_ws r \<noteq> []"
  by (auto simp: bare_marker_def after_marker_checked_def split: list.splits if_splits)

lemma dropWhile_line:
  assumes "\<forall>x \<in> set a. \<not> is_line_terminator x" "tail = [] \<or> (\<exists>R. tail = ch_nl # R)"
  shows "dropWhile (\<lambda>x. \<not> is_line_terminator x) (a @ tail) = tail"
  using assms by (induction a) auto

lemma text_eol_on_line:
  assumes "skip_ws r \<noteq> []" "\<forall>x \<in> set r. \<not> is_line_terminator x"
    "tail = [] \<or> (\<exists>R. tail = ch_nl # R)"
  shows "rx_match ic True [Star Space, Plus Dot, Eol] prev (r @ tail) cs = Some (tail, cs)"
proof -
  from assms(1) obtain c r' where sk: "skip_ws r = c # r'" by (cases "skip_ws r") auto
  then have "skip_ws (r @ tail) = c # r' @ tail" by (rule skip_ws_append_text)
  then have "rx_match ic True [Star Space, Plus Dot, Eol] prev (r @ tail) cs
               = Some (dropWhile (\<lambda>x. \<not> is_line_terminator x) (c # r' @ tail), cs)"
    by (rule rx_match_text_eol)
  moreover have "set (c # r') \<subseteq> set r"
    using skip_ws_subset [of r] sk by simp
  then have "\<forall>x \<in> set (c # r'). \<not> is_line_terminator x"
    using assms(2) by blast
  then have "dropWhile (\<lambda>x. \<not> is_line_terminator x) ((c # r') @ tail) = tail"
    using assms(3) by (rule dropWhile_line)
  ultimately show ?thesis by simp
qed

lemma anchored_count_unchecked: "anchored re_count_unchecked"
  by (simp add: anchored_def attempt_count_unchecked)

lemma anchored_count_checked: "anchored re_count_checked"
  by (simp add: anchored_def attempt_count_checked)

lemma blank_no_marker:
  "skip_ws l = [] \<Longrightarrow> after_marker_unchecked l = None"
  "skip_ws l = [] \<Longrightarrow> after_marker_checked l = None"
  by (simp_all add: after_marker_unchecked_def after_marker_checked_def)

lemma counts_lines_unchecked:
  "counts_lines re_count_unchecked (\<lambda>l. after_marker_unchecked l \<noteq> None)"
  unfolding counts_lines_def
proof (intro conjI allI impI)
  show "anchored re_count_unchecked" by (rule anchored_count_unchecked)
next
  fix prev s after cs
  assume "attempt re_count_unchecked prev s = Some (after, cs)"
  then obtain r where "after_marker_unchecked s = Some r"
    and "rx_match False True [Star Space, Plus Dot, Eol] (Some ch_rbracket) r no_captures
           = Some (after, cs)"
    by (auto simp: attempt_count_unchecked split: if_splits option.splits)
  then have "length r < length s" "length after \<le> length r"
    by (auto dest: after_marker_unchecked_length rx_match_length)
  then show "after \<noteq> s" by auto
next
  fix prev l
  assume "skip_ws l = []"
  then show "attempt re_count_unchecked prev l = None"
    by (simp add: attempt_count_unchecked blank_no_marker)
next
  fix prev l R
  assume "at_bol True prev" "skip_ws l = []"
  then have "after_marker_unchecked (l @ ch_nl # R) = after_marker_unchecked R"
    by (intro after_marker_unchecked_cong skip_ws_blank_line)
  with \<open>at_bol True prev\<close>
  show "attempt re_count_unchecked prev (l @ ch_nl # R) = attempt re_count_unchecked (Some ch_nl) R"
    by (simp add: attempt_count_unchecked)
next
  fix prev l tail
  assume bol: "at_bol True prev" and pl: "plain_line l" and nb: "skip_ws l \<noteq> []"
    and tail: "tail = [] \<or> (\<exists>R. tail = ch_nl # R)"
  from pl have lt: "\<forall>c \<in> set l. \<not> is_line_terminator c" and bm: "\<not> bare_marker l"
    by (simp_all add: plain_line_def)
  have app: "after_marker_unchecked (l @ tail)
               = map_option (\<lambda>r. r @ tail) (after_marker_unchecked l)"
    using bm nb by (rule after_marker_unchecked_append)
  show "attempt re_count_unchecked prev (l @ tail)
          = (if after_marker_unchecked l \<noteq> None then Some (tail, no_captures) else None)"
  proof (cases "after_marker_unchecked l")
    case None
    with app bol show ?thesis by (simp add: attempt_count_unchecked)
  next
    case (Some r)
    with bm have "skip_ws r \<noteq> []" by (intro bare_marker_unchecked)
    moreover from Some lt have "\<forall>x \<in> set r. \<not> is_line_terminator x"
      using after_marker_unchecked_subset by blast
    ultimately have "rx_match False True [Star Space, Plus Dot, Eol] (Some ch_rbracket)
                       (r @ tail) no_captures = Some (tail, no_captures)"
      using tail by (intro text_eol_on_line)
    with Some app bol show ?thesis by (simp add: attempt_count_unchecked)
  qed
next
  fix l
  assume "skip_ws l = []"
  then show "\<not> after_marker_unchecked l \<noteq> None" by (simp add: blank_no_marker)
qed

lemma counts_lines_checked:
  "counts_lines re_count_checked (\<lambda>l. after_marker_checked l \<noteq> None)"
  unfolding counts_lines_def
proof (intro conjI allI impI)
  show "anchored re_count_checked" by (rule anchored_count_checked)
next
  fix prev s after cs
  assume "attempt re_count_checked prev s = Some (after, cs)"
  then obtain r where "after_marker_checked s = Some r"
    and "rx_match True True [Star Space, Plus Dot, Eol] (Some ch_rbracket) r no_captures
           = Some (after, cs)"
    by (auto simp: attempt_count_checked split: if_splits option.splits)
  then have "length r < length s" "length after \<le> length r"
    by (auto dest: after_marker_checked_length rx_match_length)
  then show "after \<noteq> s" by auto
next
  fix prev l
  assume "skip_ws l = []"
  then show "attempt re_count_checked prev l = None"
    by (simp add: attempt_count_checked blank_no_marker)
next
  fix prev l R
  assume "at_bol True prev" "skip_ws l = []"
  then have "after_marker_checked (l @ ch_nl # R) = after_marker_checked R"
    by (intro after_marker_checked_cong skip_ws_blank_line)
  with \<open>at_bol True prev\<close>
  show "attempt re_count_checked prev (l @ ch_nl # R) = attempt re_count_checked (Some ch_nl) R"
    by (simp add: attempt_count_checked)
next
  fix prev l tail
  assume bol: "at_bol True prev" and pl: "plain_line l" and nb: "skip_ws l \<noteq> []"
    and tail: "tail = [] \<or> (\<exists>R. tail = ch_nl # R)"
  from pl have lt: "\<forall>c \<in> set l. \<not> is_line_terminator c" and bm: "\<not> bare_marker l"
    by (simp_all add: plain_line_def)
  have app: "after_marker_checked (l @ tail)
               = map_option (\<lambda>r. r @ tail) (after_marker_checked l)"
    using bm nb tail by (rule after_marker_checked_append)
  show "attempt re_count_checked prev (l @ tail)
          = (if after_marker_checked l \<noteq> None then Some (tail, no_captures) else None)"
  proof (cases "after_marker_checked l")
    case None
    with app bol show ?thesis by (simp add: attempt_count_checked)
  next
    case (Some r)
    with bm have "skip_ws r \<noteq> []" by (intro bare_marker_checked)
    moreover from Some lt have "\<forall>x \<in> set r. \<not> is_line_terminator x"
      using after_marker_checked_subset by blast
    ultimately have "rx_match True True [Star Space, Plus Dot, Eol] (Some ch_rbracket)
                       (r @ tail) no_captures = Some (tail, no_captures)"
      using tail by (intro text_eol_on_line)
    with Some app bol show ?thesis by (simp add: attempt_count_checked)
  qed
next
  fix l
  assume "skip_ws l = []"
  then show "\<not> after_marker_checked l \<noteq> None" by (simp add: blank_no_marker)
qed

section \<open>The counters and the lines the renderer draws as tasks\<close>

lemma rx_match_dots_close_end:
  "\<forall>x \<in> set s. \<not> is_line_terminator x \<Longrightarrow>
     rx_match ic False [Star Dot, Close k, Eol] prev s cs = Some ([], close_group k [] cs)"
  by (induction s arbitrary: prev) (simp_all add: at_eol_def)

lemma rx_match_text_end:
  "skip_ws s \<noteq> [] \<Longrightarrow> \<forall>x \<in> set s. \<not> is_line_terminator x \<Longrightarrow>
     rx_match ic False [Star Space, Open k, Plus Dot, Close k, Eol] prev s cs \<noteq> None"
proof (induction s arbitrary: prev)
  case Nil
  then show ?case by simp
next
  case (Cons x xs)
  show ?case
  proof (cases "is_whitespace x")
    case True
    with Cons.prems have "skip_ws xs \<noteq> []" "\<forall>x \<in> set xs. \<not> is_line_terminator x" by simp_all
    from Cons.IH [OF this, of "Some x"] obtain res where
      "rx_match ic False [Star Space, Open k, Plus Dot, Close k, Eol] (Some x) xs cs = Some res"
      by auto
    with True show ?thesis by simp
  next
    case False
    with Cons.prems show ?thesis
      by (simp add: rx_match_dots_close_end)
  qed
qed

lemma render_unchecked_iff:
  assumes "plain_line l"
  shows "js_match re_render_unchecked l \<noteq> None \<longleftrightarrow> after_marker_unchecked l \<noteq> None"
proof (cases "after_marker_unchecked l")
  case None
  then show ?thesis by (simp add: js_match_render_unchecked)
next
  case (Some r)
  from assms have lt: "\<forall>c \<in> set l. \<not> is_line_terminator c" and bm: "\<not> bare_marker l"
    by (simp_all add: plain_line_def)
  from bm Some have "skip_ws r \<noteq> []" by (rule bare_marker_unchecked)
  moreover from Some lt have "\<forall>x \<in> set r. \<not> is_line_terminator x"
    using after_marker_unchecked_subset by blast
  ultimately have "rx_match False False [Star Space, Open 2, Plus Dot, Close 2, Eol]
                     (Some ch_rbracket) r (indent_captured l) \<noteq> None"
    by (rule rx_match_text_end)
  with Some show ?thesis
    by (auto simp: js_match_render_unchecked split: option.splits)
qed

lemma render_checked_iff:
  assumes "plain_line l"
  shows "js_match re_render_checked l \<noteq> None \<longleftrightarrow> after_marker_checked l \<noteq> None"
proof (cases "after_marker_checked l")
  case None
  then show ?thesis by (simp add: js_match_render_checked)
next
  case (Some r)
  from assms have lt: "\<forall>c \<in> set l. \<not> is_line_terminator c" and bm: "\<not> bare_marker l"
    by (simp_all add: plain_line_def)
  from bm Some have "skip_ws r \<noteq> []" by (rule bare_marker_checked)
  moreover from Some lt have "\<forall>x \<in> set r. \<not> is_line_terminator x"
    using after_marker_checked_subset by blast
  ultimately have "rx_match True False [Star Space, Open 2, Plus Dot, Close 2, Eol]
                     (Some ch_rbracket) r (indent_captured l) \<noteq> None"
    by (rule rx_match_text_end)
  with Some show ?thesis
    by (auto simp: js_match_render_checked split: option.splits)
qed

lemma js_split_subset: "l \<in> set (js_split sep s) \<Longrightarrow> set l \<subseteq> set s"
proof (induction s arbitrary: l)
  case Nil
  then show ?case by simp
next
  case (Cons c s)
  obtain l0 ls where sp: "js_split sep s = l0 # ls"
    using js_split_not_Nil [of sep s] by (cases "js_split sep s") auto
  with Cons.IH have "set l0 \<subseteq> set s" "\<And>l. l \<in> set ls \<Longrightarrow> set l \<subseteq> set s"
    by simp_all
  with Cons.prems sp show ?case
    by (auto split: if_splits)
qed

lemma lines_plain:
  assumes "\<forall>c \<in> set text. is_line_terminator c \<longrightarrow> c = ch_nl"
    and "\<forall>l \<in> set (js_split ch_nl text). \<not> bare_marker l"
  shows "\<forall>l \<in> set (js_split ch_nl text). plain_line l"
proof
  fix l
  assume l: "l \<in> set (js_split ch_nl text)"
  then have "ch_nl \<notin> set l" "set l \<subseteq> set text"
    by (auto dest: js_split_no_sep js_split_subset)
  with assms(1) have "\<forall>c \<in> set l. \<not> is_line_terminator c" by blast
  with assms(2) l show "plain_line l" by (simp add: plain_line_def)
qed

lemma scan_counts_lines:
  assumes "counts_lines re P" "\<forall>l \<in> set (js_split ch_nl text). plain_line l"
  shows "length (rx_match_all re None text) = length (filter P (js_split ch_nl text))"
proof -
  have "length (rx_match_all re None (js_join ch_nl (js_split ch_nl text)))
          = length (filter P (js_split ch_nl text))"
    using assms(1) js_split_not_Nil assms(2)
    by (rule count_by_lines) (simp add: at_bol_def)
  then show ?thesis by (simp add: js_join_split)
qed

lemma countUncheckedTasks_scan:
  "countUncheckedTasks (Some text)
     = (if text = [] then 0 else length (rx_match_all re_count_unchecked None text))"
  by (simp add: countUncheckedTasks_def js_match_g_def split: list.splits)

lemma countCheckedTasks_scan:
  "countCheckedTasks (Some text)
     = (if text = [] then 0 else length (rx_match_all re_count_checked None text))"
  by (simp add: countCheckedTasks_def js_match_g_def split: list.splits)

text \<open>
  C5, as the code has it by design: on a text whose only line terminator is the newline and
  which has no line that is a bare marker, \<^verbatim>\<open>countUncheckedTasks\<close> is the number of lines
  matching \<^verbatim>\<open>^(\s*)-\s*\[\s*\]\s*(.+)$\<close> and \<^verbatim>\<open>countCheckedTasks\<close> the number of lines
  matching \<^verbatim>\<open>^(\s*)-\s*\[x\]\s*(.+)$\<close> without regard to case, the patterns of the renderer.
\<close>

theorem counters_count_task_lines:
  assumes "\<forall>c \<in> set text. is_line_terminator c \<longrightarrow> c = ch_nl"
    and "\<forall>l \<in> set (js_split ch_nl text). \<not> bare_marker l"
  shows "countUncheckedTasks (Some text)
           = length (filter (\<lambda>l. js_match re_render_unchecked l \<noteq> None) (js_split ch_nl text))
     \<and> countCheckedTasks (Some text)
           = length (filter (\<lambda>l. js_match re_render_checked l \<noteq> None) (js_split ch_nl text))"
proof -
  let ?ls = "js_split ch_nl text"
  have pl: "\<forall>l \<in> set ?ls. plain_line l"
    using assms by (rule lines_plain)
  have u: "length (rx_match_all re_count_unchecked None text)
             = length (filter (\<lambda>l. js_match re_render_unchecked l \<noteq> None) ?ls)"
  proof -
    have "\<And>l. l \<in> set ?ls \<Longrightarrow>
            (after_marker_unchecked l \<noteq> None) = (js_match re_render_unchecked l \<noteq> None)"
      using pl render_unchecked_iff by blast
    then have "filter (\<lambda>l. after_marker_unchecked l \<noteq> None) ?ls
            = filter (\<lambda>l. js_match re_render_unchecked l \<noteq> None) ?ls"
      by (rule filter_cong [OF refl])
    then show ?thesis
      using scan_counts_lines [OF counts_lines_unchecked pl] by simp
  qed
  have c: "length (rx_match_all re_count_checked None text)
             = length (filter (\<lambda>l. js_match re_render_checked l \<noteq> None) ?ls)"
  proof -
    have "\<And>l. l \<in> set ?ls \<Longrightarrow>
            (after_marker_checked l \<noteq> None) = (js_match re_render_checked l \<noteq> None)"
      using pl render_checked_iff by blast
    then have "filter (\<lambda>l. after_marker_checked l \<noteq> None) ?ls
            = filter (\<lambda>l. js_match re_render_checked l \<noteq> None) ?ls"
      by (rule filter_cong [OF refl])
    then show ?thesis
      using scan_counts_lines [OF counts_lines_checked pl] by simp
  qed
  have e: "rx_match_all re_count_unchecked None [] = []" "rx_match_all re_count_checked None [] = []"
    by (simp_all add: rx_match_all_None rx_exec_unfold attempt_count_unchecked
          attempt_count_checked blank_no_marker)
  show ?thesis
  proof (cases "text = []")
    case True
    with u c e show ?thesis
      by (simp add: countUncheckedTasks_scan countCheckedTasks_scan)
  next
    case False
    with u c show ?thesis
      by (simp add: countUncheckedTasks_scan countCheckedTasks_scan)
  qed
qed

theorem counters_count_task_lines_witness:
  "countUncheckedTasks (Some (js ''# Tasks\<newline>- [ ] A\<newline>  - [X] B\<newline>\<newline>-[] c'')) = 2
   \<and> countCheckedTasks (Some (js ''# Tasks\<newline>- [ ] A\<newline>  - [X] B\<newline>\<newline>-[] c'')) = 1"
proof -
  let ?t = "js ''# Tasks\<newline>- [ ] A\<newline>  - [X] B\<newline>\<newline>-[] c''"
  have h1: "\<forall>c \<in> set ?t. is_line_terminator c \<longrightarrow> c = ch_nl"
    by code_simp
  have h2: "\<forall>l \<in> set (js_split ch_nl ?t). \<not> bare_marker l"
    by code_simp
  have "length (filter (\<lambda>l. js_match re_render_unchecked l \<noteq> None) (js_split ch_nl ?t)) = 2"
    by code_simp
  moreover
  have "length (filter (\<lambda>l. js_match re_render_checked l \<noteq> None) (js_split ch_nl ?t)) = 1"
    by code_simp
  ultimately show ?thesis
    using counters_count_task_lines [OF h1 h2] by simp
qed

text \<open>
  C5 as stated fails: the line \<^verbatim>\<open>- [] a\<close>, with nothing between the brackets, is counted
  by \<^verbatim>\<open>countUncheckedTasks\<close> (and drawn as a task), while the pattern of the specification
  asks for exactly one space there.
\<close>

theorem counters_count_task_lines_counterexample:
  "countUncheckedTasks (Some (js ''- [] a'')) = 1
   \<and> spec_unchecked_lines (js ''- [] a'') = 0
   \<and> render_line (js ''- [] a'') = UncheckedTask (Some []) (Some (js ''a''))"
  by code_simp

section \<open>The total across lines\<close>

text \<open>
  C4 fails on the code: in \<^verbatim>\<open>- [ ]\<close> followed by a line \<^verbatim>\<open>foo\<close> no line is a task, neither
  for the renderer nor for the patterns tried line by line, but the whitespace of the counting
  pattern runs over the newline and the total is 1.
\<close>

theorem total_counts_across_lines:
  "totalTasks \<lparr>content = [], localContent = js ''- [ ]\<newline>foo'', mode = View,
              contentChanges = []\<rparr> = 1
   \<and> map render_line (js_split ch_nl (js ''- [ ]\<newline>foo'')) = [NoTask, NoTask]
   \<and> spec_unchecked_lines (js ''- [ ]\<newline>foo'') + spec_checked_lines (js ''- [ ]\<newline>foo'') = 0"
  by code_simp

end
